theory Spec2Isabelle
  imports Complex_Main "HOL-Library.AList"
begin

section \<open>Paths and file names\<close>

text \<open>
  A path is the list of its components, as \<^verbatim>\<open>pathlib.PurePath.parts\<close> gives them;
  \<^verbatim>\<open>p / name\<close> appends one component. File names are strings of 8-bit characters
  (the UTF-8 bytes of the Python string); the code looks for the ASCII dot, which never
  occurs inside a multi-byte sequence, and puts the suffix in lower case.
\<close>

type_synonym path = "string list"

definition name :: "path \<Rightarrow> string" where
  "name p = (if p = [] then [] else last p)"

definition joinpath :: "path \<Rightarrow> string \<Rightarrow> path" where
  "joinpath d n = d @ [n]"

text \<open>\<^verbatim>\<open>str.rfind\<close> for a single character: the index of its last occurrence.\<close>

fun rfind :: "char \<Rightarrow> string \<Rightarrow> nat option" where
  "rfind c [] = None"
| "rfind c (x # xs) =
     (case rfind c xs of
        Some i \<Rightarrow> Some (Suc i)
      | None \<Rightarrow> if x = c then Some 0 else None)"

text \<open>
  \<^verbatim>\<open>PurePath.suffix\<close> and \<^verbatim>\<open>PurePath.stem\<close> as CPython 3.6 to 3.13 define them
  (the program asks for Python 3.6 or later):
  \<^verbatim>\<open>i = name.rfind('.'); if 0 < i < len(name) - 1: name[i:] / name[:i] else '' / name\<close>.
\<close>

definition suffix :: "string \<Rightarrow> string" where
  "suffix n =
     (case rfind (CHR ''.'') n of
        Some i \<Rightarrow> if 0 < i \<and> Suc i < length n then drop i n else []
      | None \<Rightarrow> [])"

definition stem :: "string \<Rightarrow> string" where
  "stem n =
     (case rfind (CHR ''.'') n of
        Some i \<Rightarrow> if 0 < i \<and> Suc i < length n then take i n else n
      | None \<Rightarrow> n)"

text \<open>
  \<^verbatim>\<open>str.lower\<close> on the UTF-8 bytes of the string. An ASCII capital becomes its small
  letter. U+212A KELVIN SIGN (the bytes \<open>E2 84 AA\<close>, which can only start at a character
  boundary) becomes the ASCII letter \<open>k\<close>; it is the one code point outside ASCII whose
  lower case is ASCII. Every other code point outside ASCII is left as it is:
  \<^verbatim>\<open>str.lower\<close> sends it to text that again holds a code point outside ASCII, so the
  comparison with the extension table, which is ASCII, comes out the same.
\<close>

definition lower_char :: "char \<Rightarrow> char" where
  "lower_char c =
     (case map_of (zip ''ABCDEFGHIJKLMNOPQRSTUVWXYZ'' ''abcdefghijklmnopqrstuvwxyz'') c of
        Some l \<Rightarrow> l
      | None \<Rightarrow> c)"

definition kelvin_sign :: string where
  "kelvin_sign = [CHR 0xE2, CHR 0x84, CHR 0xAA]"

fun lower :: "string \<Rightarrow> string" where
  "lower (b1 # b2 # b3 # s) =
     (if [b1, b2, b3] = kelvin_sign then CHR ''k'' # lower s
      else lower_char b1 # lower (b2 # b3 # s))"
| "lower (b # s) = lower_char b # lower s"
| "lower [] = []"

section \<open>The classification table\<close>

text \<open>
  The keys of \<^verbatim>\<open>self.file_categories\<close> are Chinese words; the constructors below name
  them in English, in the dictionary's insertion order: pictures, videos, audio,
  documents, archives, programs, other.
\<close>

datatype category = Pictures | Videos | Audio | Documents | Archives | Programs | Other

definition file_categories :: "(category \<times> string list) list" where
  "file_categories =
     [(Pictures, [''.jpg'', ''.jpeg'', ''.png'', ''.gif'', ''.bmp'', ''.webp'', ''.svg'', ''.ico'', ''.tiff'']),
      (Videos, [''.mp4'', ''.avi'', ''.mov'', ''.wmv'', ''.flv'', ''.mkv'', ''.webm'', ''.m4v'', ''.3gp'']),
      (Audio, [''.mp3'', ''.wav'', ''.flac'', ''.aac'', ''.ogg'', ''.wma'', ''.m4a'', ''.amr'']),
      (Documents, [''.pdf'', ''.doc'', ''.docx'', ''.txt'', ''.rtf'', ''.xls'', ''.xlsx'', ''.ppt'', ''.pptx'']),
      (Archives, [''.zip'', ''.rar'', ''.7z'', ''.tar'', ''.gz'', ''.bz2'']),
      (Programs, [''.exe'', ''.msi'', ''.dmg'', ''.pkg'', ''.deb'', ''.rpm'', ''.apk'']),
      (Other, [])]"

text \<open>
  The loop of \<^verbatim>\<open>get_file_category\<close> over \<^verbatim>\<open>file_categories.items()\<close>: the first
  category that is not the fallback and lists the suffix wins.
\<close>

fun first_category :: "(category \<times> string list) list \<Rightarrow> string \<Rightarrow> category" where
  "first_category [] sfx = Other"
| "first_category ((category, extensions) # rest) sfx =
     (if category \<noteq> Other \<and> sfx \<in> set extensions then category
      else first_category rest sfx)"

definition get_file_category :: "path \<Rightarrow> category" where
  "get_file_category file_path = first_category file_categories (lower (suffix (name file_path)))"


text \<open>
  The directory of a category is named by the dictionary key itself; the strings below
  are the UTF-8 bytes of the seven keys.
\<close>

definition category_name :: "category \<Rightarrow> string" where
  "category_name c =
     (case c of
        Pictures \<Rightarrow> [CHR 0xE5, CHR 0x9B, CHR 0xBE, CHR 0xE7, CHR 0x89, CHR 0x87]
      | Videos \<Rightarrow> [CHR 0xE8, CHR 0xA7, CHR 0x86, CHR 0xE9, CHR 0xA2, CHR 0x91]
      | Audio \<Rightarrow> [CHR 0xE9, CHR 0x9F, CHR 0xB3, CHR 0xE9, CHR 0xA2, CHR 0x91]
      | Documents \<Rightarrow> [CHR 0xE6, CHR 0x96, CHR 0x87, CHR 0xE6, CHR 0xA1, CHR 0xA3]
      | Archives \<Rightarrow> [CHR 0xE5, CHR 0x8E, CHR 0x8B, CHR 0xE7, CHR 0xBC, CHR 0xA9, CHR 0xE5, CHR 0x8C, CHR 0x85]
      | Programs \<Rightarrow> [CHR 0xE7, CHR 0xA8, CHR 0x8B, CHR 0xE5, CHR 0xBA, CHR 0x8F]
      | Other \<Rightarrow> [CHR 0xE5, CHR 0x85, CHR 0xB6, CHR 0xE4, CHR 0xBB, CHR 0x96])"

section \<open>The file system\<close>

text \<open>
  The disk is an association list from paths to nodes, so that it is finite and can be
  enumerated. A regular file carries its bytes and whether it can be opened for reading.
\<close>

datatype node = Directory | Regular bool string

type_synonym filesystem = "(path \<times> node) list"

datatype error = FileExistsError | NotADirectoryError | OSError | TypeError | OverflowError

definition path_exists :: "filesystem \<Rightarrow> path \<Rightarrow> bool" where
  "path_exists fs p = (map_of fs p \<noteq> None)"

definition is_file :: "filesystem \<Rightarrow> path \<Rightarrow> bool" where
  "is_file fs p = (case map_of fs p of Some (Regular r c) \<Rightarrow> True | _ \<Rightarrow> False)"

definition ancestors :: "path \<Rightarrow> path list" where
  "ancestors p = map (\<lambda>k. take k p) [1..<length p]"

text \<open>
  \<^verbatim>\<open>Path.mkdir(parents=True, exist_ok=True)\<close>: nothing to do for a directory, an error
  where a regular file is in the way, otherwise the directory and its missing ancestors
  are created.
\<close>

definition mkdir :: "filesystem \<Rightarrow> path \<Rightarrow> error + filesystem" where
  "mkdir fs p =
     (case map_of fs p of
        Some Directory \<Rightarrow> Inr fs
      | Some (Regular r c) \<Rightarrow> Inl FileExistsError
      | None \<Rightarrow>
          if \<exists>a \<in> set (ancestors p). is_file fs a then Inl NotADirectoryError
          else Inr (foldl (\<lambda>f d. if path_exists f d then f else f @ [(d, Directory)])
                      fs (ancestors p @ [p])))"

text \<open>
  \<^verbatim>\<open>shutil.copy2(src, dst)\<close>: the source is opened for reading first, so an unreadable
  or missing source fails before anything is written; the copy carries the bytes and the
  permission bits. A destination that is a directory receives the file under its own name.
\<close>

definition copy2 :: "filesystem \<Rightarrow> path \<Rightarrow> path \<Rightarrow> error + filesystem" where
  "copy2 fs src dst =
     (case map_of fs src of
        Some (Regular True c) \<Rightarrow>
          (let dst' = (if map_of fs dst = Some Directory then joinpath dst (name src) else dst)
           in Inr (AList.update dst' (Regular True c) fs))
      | _ \<Rightarrow> Inl OSError)"

text \<open>\<^verbatim>\<open>Path.rglob('*')\<close>: every path strictly below the directory, in the disk's order.\<close>

definition rglob :: "filesystem \<Rightarrow> path \<Rightarrow> path list" where
  "rglob fs d = filter (\<lambda>p. length d < length p \<and> take (length d) p = d) (map fst fs)"

section \<open>Hashing and duplicate detection\<close>

text \<open>
  \<^verbatim>\<open>hashlib.md5(...).hexdigest()\<close> is a parameter \<open>hexdigest\<close> from bytes to the
  digest text. \<^verbatim>\<open>calculate_file_hash\<close> returns the empty string when opening or
  reading the file raises.
\<close>

definition calculate_file_hash :: "(string \<Rightarrow> string) \<Rightarrow> filesystem \<Rightarrow> path \<Rightarrow> string" where
  "calculate_file_hash hexdigest fs file_path =
     (case map_of fs file_path of
        Some (Regular True c) \<Rightarrow> hexdigest c
      | _ \<Rightarrow> [])"

definition is_duplicate_file ::
  "(string \<Rightarrow> string) \<Rightarrow> filesystem \<Rightarrow> path \<Rightarrow> path \<Rightarrow> bool" where
  "is_duplicate_file hexdigest fs source_file target_file =
     (if \<not> path_exists fs target_file then False
      else
        (let source_hash = calculate_file_hash hexdigest fs source_file;
             target_hash = calculate_file_hash hexdigest fs target_file
         in source_hash = target_hash \<and> source_hash \<noteq> []))"

section \<open>Unique file names\<close>

text \<open>\<^verbatim>\<open>str(counter)\<close>: the decimal digits of a natural number.\<close>

definition digit :: "nat \<Rightarrow> char" where
  "digit d = ''0123456789'' ! d"

fun str_nat :: "nat \<Rightarrow> string" where
  "str_nat n = (if n < 10 then [digit n] else str_nat (n div 10) @ [digit (n mod 10)])"

declare str_nat.simps [simp del]

definition new_filename :: "string \<Rightarrow> string \<Rightarrow> nat \<Rightarrow> string" where
  "new_filename stm sfx counter = stm @ ''_'' @ str_nat counter @ sfx"

text \<open>
  The \<^verbatim>\<open>while target_path.exists()\<close> loop of \<^verbatim>\<open>generate_unique_filename\<close>, with
  its three variables; it terminates because the disk holds finitely many paths.
\<close>

function unique_loop ::
  "filesystem \<Rightarrow> path \<Rightarrow> string \<Rightarrow> string \<Rightarrow> path \<Rightarrow> nat \<Rightarrow> path" where
  "unique_loop fs target_dir stm sfx target_path counter =
     (if path_exists fs target_path
      then unique_loop fs target_dir stm sfx
             (joinpath target_dir (new_filename stm sfx counter)) (counter + 1)
      else target_path)"
  by pat_completeness auto

text \<open>Decimal numerals are injective, so the candidates of the loop are pairwise distinct.\<close>

lemma digit_inj: "d < 10 \<Longrightarrow> e < 10 \<Longrightarrow> digit d = digit e \<Longrightarrow> d = e"
proof -
  assume a: "d < 10" "e < 10" "digit d = digit e"
  have "distinct ''0123456789''" by simp
  moreover have "d < length ''0123456789''" "e < length ''0123456789''" using a by simp_all
  ultimately show "d = e" using a(3) unfolding digit_def
    by (simp only: nth_eq_iff_index_eq)
qed

lemma str_nat_nonempty: "str_nat n \<noteq> []"
  by (subst str_nat.simps) simp

lemma str_nat_inj: "str_nat m = str_nat n \<Longrightarrow> m = n"
proof (induction m arbitrary: n rule: str_nat.induct)
  case (1 m)
  show ?case
  proof (cases "m < 10")
    case True
    then have sm: "str_nat m = [digit m]" by (subst str_nat.simps) simp
    show ?thesis
    proof (cases "n < 10")
      case True
      then have "str_nat n = [digit n]" by (subst str_nat.simps) simp
      with sm "1.prems" \<open>m < 10\<close> True show ?thesis by (auto dest: digit_inj)
    next
      case False
      then have "str_nat n = str_nat (n div 10) @ [digit (n mod 10)]"
        by (subst str_nat.simps) simp
      with sm "1.prems" str_nat_nonempty [of "n div 10"] show ?thesis by (cases "str_nat (n div 10)") auto
    qed
  next
    case False
    then have sm: "str_nat m = str_nat (m div 10) @ [digit (m mod 10)]"
      by (subst str_nat.simps) simp
    show ?thesis
    proof (cases "n < 10")
      case True
      then have "str_nat n = [digit n]" by (subst str_nat.simps) simp
      with sm "1.prems" str_nat_nonempty [of "m div 10"] show ?thesis by (cases "str_nat (m div 10)") auto
    next
      case False
      then have sn: "str_nat n = str_nat (n div 10) @ [digit (n mod 10)]"
        by (subst str_nat.simps) simp
      from sm sn "1.prems" have e: "str_nat (m div 10) = str_nat (n div 10)"
        and d: "digit (m mod 10) = digit (n mod 10)" by simp_all
      from "1.IH" [OF \<open>\<not> m < 10\<close> e] have q: "m div 10 = n div 10" .
      from d have r: "m mod 10 = n mod 10" by (auto dest!: digit_inj [rotated 2])
      from q r show ?thesis by (metis div_mult_mod_eq)
    qed
  qed
qed

lemma new_filename_inj: "new_filename stm sfx j = new_filename stm sfx k \<Longrightarrow> j = k"
  by (simp add: new_filename_def str_nat_inj)

lemma path_exists_iff: "path_exists fs p \<longleftrightarrow> p \<in> fst ` set fs"
  by (simp add: path_exists_def map_of_eq_None_iff)

lemma finite_taken: "finite {k. c \<le> k \<and> path_exists fs (joinpath d (new_filename stm sfx k))}"
proof -
  have "inj (\<lambda>k. joinpath d (new_filename stm sfx k))"
    by (rule injI) (simp add: joinpath_def new_filename_inj)
  then have "finite ((\<lambda>k. joinpath d (new_filename stm sfx k)) -` (fst ` set fs))"
    by (intro finite_vimageI) simp_all
  moreover have "{k. c \<le> k \<and> path_exists fs (joinpath d (new_filename stm sfx k))}
      \<subseteq> (\<lambda>k. joinpath d (new_filename stm sfx k)) -` (fst ` set fs)"
    by (auto simp: path_exists_iff)
  ultimately show ?thesis by (rule rev_finite_subset)
qed

definition taken :: "filesystem \<Rightarrow> path \<Rightarrow> string \<Rightarrow> string \<Rightarrow> nat \<Rightarrow> nat set" where
  "taken fs d stm sfx c = {k. c \<le> k \<and> path_exists fs (joinpath d (new_filename stm sfx k))}"

lemma taken_step:
  "card (taken fs d stm sfx c) =
     card (taken fs d stm sfx (Suc c)) + (if path_exists fs (joinpath d (new_filename stm sfx c)) then 1 else 0)"
proof -
  have f: "finite (taken fs d stm sfx (Suc c))" unfolding taken_def by (rule finite_taken)
  show ?thesis
  proof (cases "path_exists fs (joinpath d (new_filename stm sfx c))")
    case True
    then have "taken fs d stm sfx c = insert c (taken fs d stm sfx (Suc c))"
      unfolding taken_def by (auto simp: le_Suc_eq)
    moreover have "c \<notin> taken fs d stm sfx (Suc c)" unfolding taken_def by simp
    ultimately show ?thesis using f True by simp
  next
    case False
    then have "taken fs d stm sfx c = taken fs d stm sfx (Suc c)"
      unfolding taken_def by (auto simp: Suc_le_eq le_less)
    then show ?thesis using False by simp
  qed
qed

termination unique_loop
proof (relation "measure (\<lambda>(fs, d, stm, sfx, tp, c).
        card (taken fs d stm sfx c) + (if path_exists fs tp then 1 else 0))")
  show "wf (measure (\<lambda>(fs, d, stm, sfx, tp, c).
        card (taken fs d stm sfx c) + (if path_exists fs tp then 1 else 0)))"
    by simp
next
  fix fs :: filesystem and target_dir :: path and stm sfx :: string
    and target_path :: path and counter :: nat
  assume "path_exists fs target_path"
  then show "((fs, target_dir, stm, sfx, joinpath target_dir (new_filename stm sfx counter),
          counter + 1), fs, target_dir, stm, sfx, target_path, counter)
       \<in> measure (\<lambda>(fs, d, stm, sfx, tp, c).
        card (taken fs d stm sfx c) + (if path_exists fs tp then 1 else 0))"
    using taken_step [of fs target_dir stm sfx counter] by simp
qed

declare unique_loop.simps [simp del]

definition generate_unique_filename :: "filesystem \<Rightarrow> path \<Rightarrow> string \<Rightarrow> path" where
  "generate_unique_filename fs target_dir filename =
     (let target_path = joinpath target_dir filename;
          stm = stem (name target_path);
          sfx = suffix (name target_path)
      in unique_loop fs target_dir stm sfx target_path 1)"

section \<open>Size formatting\<close>

text \<open>
  \<^verbatim>\<open>format_size\<close> receives an \<^verbatim>\<open>int\<close>. The comparison \<^verbatim>\<open>size_bytes >= 1024.0\<close>
  is exact for an \<^verbatim>\<open>int\<close> and for a \<^verbatim>\<open>float\<close>; the first \<^verbatim>\<open>size_bytes /= 1024.0\<close>
  converts the \<^verbatim>\<open>int\<close> to a double, and so does \<^verbatim>\<open>'{:.2f}'\<close> when the loop has not run.

  The conversion (\<^verbatim>\<open>PyLong_AsDouble\<close>) keeps the 53 leading bits of the number, rounds
  to nearest with ties to even, and raises \<^verbatim>\<open>OverflowError\<close> when the rounded value
  reaches \<open>2 ^ 1024\<close>. A double is written as the rational number it stands for. The
  quotient of a double that is at least 1024 by 1024 is a double again, so the division
  inside the loop is the exact one.
\<close>

definition size_names :: "string list" where
  "size_names = [''B'', ''KB'', ''MB'', ''GB'', ''TB'']"

text \<open>\<^verbatim>\<open>int.bit_length\<close>: the number of bits of a natural number.\<close>

fun bit_length :: "nat \<Rightarrow> nat" where
  "bit_length n = (if n = 0 then 0 else Suc (bit_length (n div 2)))"

declare bit_length.simps [simp del]

definition as_double :: "nat \<Rightarrow> error + rat" where
  "as_double n =
     (let shift = bit_length n - 53;
          q = n div 2 ^ shift;
          r = n mod 2 ^ shift;
          m = (if 2 * r < 2 ^ shift then q
               else if 2 ^ shift < 2 * r then q + 1
               else if even q then q else q + 1)
      in if 2 ^ 1024 \<le> m * 2 ^ shift then Inl OverflowError
         else Inr (of_nat (m * 2 ^ shift)))"

text \<open>
  The variable \<^verbatim>\<open>size_bytes\<close> holds an \<^verbatim>\<open>int\<close> until the first division and a
  \<^verbatim>\<open>float\<close> afterwards.
\<close>

datatype number = Py_int nat | Py_float rat

definition as_float :: "number \<Rightarrow> error + rat" where
  "as_float x = (case x of Py_int n \<Rightarrow> as_double n | Py_float v \<Rightarrow> Inr v)"

definition at_least_1024 :: "number \<Rightarrow> bool" where
  "at_least_1024 x = (case x of Py_int n \<Rightarrow> 1024 \<le> n | Py_float v \<Rightarrow> 1024 \<le> v)"

function scale_size :: "number \<Rightarrow> nat \<Rightarrow> error + number \<times> nat" where
  "scale_size size_bytes i =
     (if at_least_1024 size_bytes \<and> i < length size_names - 1
      then (case as_float size_bytes of
              Inl e \<Rightarrow> Inl e
            | Inr v \<Rightarrow> scale_size (Py_float (v / 1024)) (i + 1))
      else Inr (size_bytes, i))"
  by pat_completeness auto
termination
  by (relation "measure (\<lambda>(size_bytes, i). length size_names - 1 - i)") auto

declare scale_size.simps [simp del]

text \<open>
  \<^verbatim>\<open>'{:.2f}'\<close> prints the exact value of the double rounded to two decimals, ties to
  even.
\<close>

definition round_half_even :: "rat \<Rightarrow> int" where
  "round_half_even x =
     (let f = \<lfloor>x\<rfloor>; r = x - of_int f
      in if r < 1 / 2 then f else if 1 / 2 < r then f + 1 else if even f then f else f + 1)"

definition format_2f :: "rat \<Rightarrow> string" where
  "format_2f x =
     (let h = nat (round_half_even (x * 100))
      in str_nat (h div 100) @ ''.'' @ [digit (h mod 100 div 10), digit (h mod 10)])"

definition format_size :: "nat \<Rightarrow> error + string" where
  "format_size size_bytes =
     (if size_bytes = 0 then Inr ''0 B''
      else (case scale_size (Py_int size_bytes) 0 of
              Inl e \<Rightarrow> Inl e
            | Inr (scaled, i) \<Rightarrow>
                (case as_float scaled of
                   Inl e \<Rightarrow> Inl e
                 | Inr v \<Rightarrow> Inr (format_2f v @ '' '' @ size_names ! i))))"

section \<open>The organizer\<close>

text \<open>
  The label of a progress call: the scan phase passes the item's name behind a fixed
  prefix, the processing loop passes the bare file name, and the two calls after the loop
  pass the fixed texts for "stop signal received" and "organizing finished".
\<close>

datatype label = Scanning string | Processing string | Stop_signal | Finished

text \<open>
  What \<^verbatim>\<open>show_statistics\<close> prints. The line with the total size is missing when
  \<^verbatim>\<open>format_size\<close> raised.
\<close>

record report =
  category_lines :: "(category \<times> nat) list"
  processed_count :: nat
  skipped_count :: nat
  size_text :: "string option"

text \<open>
  The fields of \<^verbatim>\<open>WeChatFileOrganizer\<close>, followed by what a run acts on: the two
  locals \<^verbatim>\<open>category_stats\<close> and \<^verbatim>\<open>total_size\<close> of \<^verbatim>\<open>organize_files\<close>, the disk, the
  calls made to the progress callback and the statistics printed. \<open>progress_callback\<close>
  says whether a callable was passed (the default is \<^verbatim>\<open>None\<close>).
\<close>

record organizer =
  source_dir :: path
  target_dir :: path
  progress_callback :: bool
  processed_files :: "path list"
  skipped_files :: "path list"
  total_files :: nat
  stop_requested :: bool
  category_stats :: "category \<Rightarrow> nat"
  total_size :: nat
  disk :: filesystem
  calls :: "(nat \<times> nat \<times> label) list"
  statistics :: "report option"

text \<open>
  What the run does not control: the digest function, whether \<^verbatim>\<open>file_path.stat()\<close>
  raises for a path, and whether \<^verbatim>\<open>stop_organizing\<close> is called (from the caller's
  thread or from the callback) once \<open>n\<close> files have been handled.
\<close>

record surroundings =
  hexdigest :: "string \<Rightarrow> string"
  stat_raises :: "path \<Rightarrow> bool"
  stop_called :: "nat \<Rightarrow> bool"

datatype outcome = Returned | Raised error

definition init :: "path \<Rightarrow> path \<Rightarrow> bool \<Rightarrow> filesystem \<Rightarrow> organizer" where
  "init source target callback fs =
     \<lparr>source_dir = source, target_dir = target, progress_callback = callback,
      processed_files = [], skipped_files = [], total_files = 0, stop_requested = False,
      category_stats = (\<lambda>c. 0), total_size = 0, disk = fs, calls = [], statistics = None\<rparr>"

definition call_progress :: "nat \<Rightarrow> nat \<Rightarrow> label \<Rightarrow> organizer \<Rightarrow> organizer" where
  "call_progress current tot l st = st\<lparr>calls := calls st @ [(current, tot, l)]\<rparr>"

definition stop_organizing :: "organizer \<Rightarrow> organizer" where
  "stop_organizing st = st\<lparr>stop_requested := True\<rparr>"

definition poll :: "surroundings \<Rightarrow> nat \<Rightarrow> organizer \<Rightarrow> organizer" where
  "poll env n st = (if stop_called env n then stop_organizing st else st)"

fun create_dirs :: "path \<Rightarrow> category list \<Rightarrow> filesystem \<Rightarrow> error option \<times> filesystem" where
  "create_dirs target [] fs = (None, fs)"
| "create_dirs target (c # cs) fs =
     (case mkdir fs (joinpath target (category_name c)) of
        Inl e \<Rightarrow> (Some e, fs)
      | Inr fs' \<Rightarrow> create_dirs target cs fs')"

definition create_target_directories :: "organizer \<Rightarrow> error option \<times> organizer" where
  "create_target_directories st =
     (case create_dirs (target_dir st) (map fst file_categories) (disk st) of
        (e, fs) \<Rightarrow> (e, st\<lparr>disk := fs\<rparr>))"

fun scan_loop ::
  "nat \<Rightarrow> nat \<Rightarrow> path list \<Rightarrow> organizer \<Rightarrow> path list \<Rightarrow> organizer \<times> path list" where
  "scan_loop i total_items [] st all_files = (st, all_files)"
| "scan_loop i total_items (item # rest) st all_files =
     (let st1 = (if progress_callback st
                 then call_progress (i + 1) total_items (Scanning (name item)) st else st)
      in scan_loop (i + 1) total_items rest st1
           (if is_file (disk st1) item then all_files @ [item] else all_files))"

definition scan_files :: "organizer \<Rightarrow> organizer \<times> path list" where
  "scan_files st =
     (let file_list = rglob (disk st) (source_dir st)
      in scan_loop 0 (length file_list) file_list st [])"

definition st_size :: "filesystem \<Rightarrow> path \<Rightarrow> nat" where
  "st_size fs p = (case map_of fs p of Some (Regular r c) \<Rightarrow> length c | _ \<Rightarrow> 0)"

text \<open>
  The body of the processing loop after the stop check, for the \<open>i\<close>-th file. Every
  exception inside it is caught by the handler, which records the file as skipped.
\<close>

definition process_file :: "surroundings \<Rightarrow> nat \<Rightarrow> path \<Rightarrow> organizer \<Rightarrow> organizer" where
  "process_file env i file_path st =
     (let st1 = (if progress_callback st
                 then call_progress i (total_files st) (Processing (name file_path)) st else st);
          category = get_file_category file_path;
          target_category_dir = joinpath (target_dir st1) (category_name category);
          target_file_path = joinpath target_category_dir (name file_path)
      in if is_duplicate_file (hexdigest env) (disk st1) file_path target_file_path
         then st1\<lparr>skipped_files := skipped_files st1 @ [file_path]\<rparr>
         else
           (let unique_target_path =
                  generate_unique_filename (disk st1) target_category_dir (name file_path)
            in case copy2 (disk st1) file_path unique_target_path of
                 Inl e \<Rightarrow> st1\<lparr>skipped_files := skipped_files st1 @ [file_path]\<rparr>
               | Inr fs' \<Rightarrow>
                   if stat_raises env file_path
                   then st1\<lparr>disk := fs', skipped_files := skipped_files st1 @ [file_path]\<rparr>
                   else st1\<lparr>disk := fs',
                          total_size := total_size st1 + st_size fs' file_path,
                          category_stats := (category_stats st1)
                            (category := category_stats st1 category + 1),
                          processed_files := processed_files st1 @ [unique_target_path]\<rparr>))"

text \<open>
  The \<^verbatim>\<open>for\<close> loop over the scanned files; \<open>n\<close> files have been handled so far. The
  flag is read once at the top of each iteration, and once more after the last one.
\<close>

fun process_loop :: "surroundings \<Rightarrow> nat \<Rightarrow> path list \<Rightarrow> organizer \<Rightarrow> organizer" where
  "process_loop env n [] st = poll env n st"
| "process_loop env n (file_path # rest) st =
     (let st1 = poll env n st
      in if stop_requested st1 then st1
         else process_loop env (Suc n) rest (process_file env (Suc n) file_path st1))"

definition show_statistics :: "organizer \<Rightarrow> outcome \<times> organizer" where
  "show_statistics st =
     (let lines =
            \<lparr>category_lines =
               filter (\<lambda>(category, count). 0 < count)
                 (map (\<lambda>category. (category, category_stats st category))
                    (map fst file_categories)),
             processed_count = length (processed_files st),
             skipped_count = length (skipped_files st),
             size_text = None\<rparr>
      in case format_size (total_size st) of
           Inl e \<Rightarrow> (Raised e, st\<lparr>statistics := Some lines\<rparr>)
         | Inr text \<Rightarrow> (Returned, st\<lparr>statistics := Some (lines\<lparr>size_text := Some text\<rparr>)\<rparr>))"

text \<open>
  \<^verbatim>\<open>organize_files\<close>. The two calls after the loop are not guarded by
  \<^verbatim>\<open>if self.progress_callback\<close>: calling \<^verbatim>\<open>None\<close> raises \<^verbatim>\<open>TypeError\<close>. An
  exception of \<^verbatim>\<open>show_statistics\<close> leaves \<^verbatim>\<open>organize_files\<close> as it is.
\<close>

definition organize_files :: "surroundings \<Rightarrow> organizer \<Rightarrow> outcome \<times> organizer" where
  "organize_files env st =
     (case create_target_directories st of
        (Some e, st1) \<Rightarrow> (Raised e, st1)
      | (None, st1) \<Rightarrow>
          (case scan_files st1 of
             (st2, all_files) \<Rightarrow>
               if all_files = [] then (Returned, st2)
               else
                 (let st3 = st2\<lparr>total_files := length all_files,
                               category_stats := (\<lambda>c. 0), total_size := 0\<rparr>;
                      st4 = process_loop env 0 all_files st3
                  in if stop_requested st4
                     then (if progress_callback st4
                           then (Returned,
                                 call_progress (total_files st4) (total_files st4) Stop_signal st4)
                           else (Raised TypeError, st4))
                     else (if progress_callback st4
                           then show_statistics
                                  (call_progress (total_files st4) (total_files st4) Finished st4)
                           else (Raised TypeError, st4)))))"

text \<open>
  Three names used to state the properties below: the destination a file has when its
  own name is free (the path the duplicate check looks at), the progress call that opens
  an iteration, and the loop body run over a list of files with no stop check in between.
\<close>

definition literal_target :: "path \<Rightarrow> path \<Rightarrow> path" where
  "literal_target target file_path =
     joinpath (joinpath target (category_name (get_file_category file_path))) (name file_path)"

definition notify :: "nat \<Rightarrow> path \<Rightarrow> organizer \<Rightarrow> organizer" where
  "notify i file_path st =
     (if progress_callback st
      then call_progress i (total_files st) (Processing (name file_path)) st else st)"

fun handle_files :: "surroundings \<Rightarrow> nat \<Rightarrow> path list \<Rightarrow> organizer \<Rightarrow> organizer" where
  "handle_files env n [] st = st"
| "handle_files env n (file_path # rest) st =
     handle_files env (Suc n) rest (process_file env (Suc n) file_path st)"

text \<open>The regular files that \<^verbatim>\<open>scan_files\<close> returns for a source directory.\<close>

definition source_files :: "filesystem \<Rightarrow> path \<Rightarrow> path list" where
  "source_files fs source = filter (is_file fs) (rglob fs source)"

section \<open>Classification is total\<close>

lemma first_category_owner:
  "(c, exts) \<in> set file_categories \<Longrightarrow> s \<in> set exts \<Longrightarrow> first_category file_categories s = c"
  unfolding file_categories_def by (elim disjE conjE | simp)+

lemma first_category_fallback:
  "\<forall>(c, exts) \<in> set tbl. s \<notin> set exts \<Longrightarrow> first_category tbl s = Other"
  by (induction tbl s rule: first_category.induct) auto

text \<open>
  Claim C8. \<^verbatim>\<open>get_file_category\<close> is a total function: a path whose lower-cased suffix
  is listed under a category of the table gets that category, and a path whose
  lower-cased suffix is listed nowhere (an empty suffix included) gets the fallback
  category. The lower case is that of \<^verbatim>\<open>str.lower\<close>, under which the suffix
  \<open>.m\<close> U+212A \<open>v\<close> is \<open>.mkv\<close> and belongs to the videos.
\<close>

theorem get_file_category_total:
  "(\<forall>c exts. (c, exts) \<in> set file_categories \<and> lower (suffix (name p)) \<in> set exts
       \<longrightarrow> get_file_category p = c) \<and>
   ((\<forall>c exts. (c, exts) \<in> set file_categories \<longrightarrow> lower (suffix (name p)) \<notin> set exts)
       \<longrightarrow> get_file_category p = Other)"
proof (intro conjI allI impI)
  fix c exts
  assume "(c, exts) \<in> set file_categories \<and> lower (suffix (name p)) \<in> set exts"
  then show "get_file_category p = c"
    unfolding get_file_category_def by (auto intro: first_category_owner)
next
  assume "\<forall>c exts. (c, exts) \<in> set file_categories \<longrightarrow> lower (suffix (name p)) \<notin> set exts"
  then have "\<forall>(c, exts) \<in> set file_categories. lower (suffix (name p)) \<notin> set exts"
    by blast
  then show "get_file_category p = Other"
    unfolding get_file_category_def by (rule first_category_fallback)
qed

theorem get_file_category_total_witness:
  "get_file_category [''wx'', ''photo.JPG''] = Pictures \<and>
   get_file_category [''wx'', ''notes''] = Other"
proof -
  have m: "(Pictures, [''.jpg'', ''.jpeg'', ''.png'', ''.gif'', ''.bmp'', ''.webp'', ''.svg'', ''.ico'', ''.tiff''])
      \<in> set file_categories"
    by (simp add: file_categories_def)
  have s: "lower (suffix (name [''wx'', ''photo.JPG''])) = ''.jpg''"
    by (simp add: suffix_def name_def lower_char_def kelvin_sign_def)
  have n: "\<forall>c exts. (c, exts) \<in> set file_categories \<longrightarrow>
      lower (suffix (name [''wx'', ''notes''])) \<notin> set exts"
    by (simp add: suffix_def name_def file_categories_def)
  from m s have ms: "(Pictures, [''.jpg'', ''.jpeg'', ''.png'', ''.gif'', ''.bmp'', ''.webp'', ''.svg'', ''.ico'', ''.tiff''])
      \<in> set file_categories \<and> lower (suffix (name [''wx'', ''photo.JPG'']))
      \<in> set [''.jpg'', ''.jpeg'', ''.png'', ''.gif'', ''.bmp'', ''.webp'', ''.svg'', ''.ico'', ''.tiff'']"
    by simp
  from get_file_category_total [of "[''wx'', ''photo.JPG'']"] ms
  have a: "get_file_category [''wx'', ''photo.JPG''] = Pictures"
    by blast
  from get_file_category_total [of "[''wx'', ''notes'']"] n
  have b: "get_file_category [''wx'', ''notes''] = Other"
    by blast
  from a b show ?thesis by simp
qed

text \<open>A name whose suffix holds the Kelvin sign: \<^verbatim>\<open>str.lower\<close> makes it \<open>.mkv\<close>.\<close>

lemma get_file_category_kelvin_sign:
  "get_file_category [''wx'', ''a.m'' @ kelvin_sign @ ''v''] = Videos"
  by (simp add: get_file_category_def suffix_def name_def lower_char_def kelvin_sign_def
      file_categories_def)

section \<open>Hashing failures and duplicates\<close>

text \<open>
  Claim C6. A file that cannot be read has the empty string as its hash, and whenever
  the hash of the source or of the existing destination is empty,
  \<^verbatim>\<open>is_duplicate_file\<close> answers false; so it does when both are empty.
\<close>

theorem is_duplicate_file_hash_failure:
  "((\<forall>c. map_of fs p \<noteq> Some (Regular True c)) \<longrightarrow> calculate_file_hash h fs p = []) \<and>
   (calculate_file_hash h fs source_file = [] \<or>
    calculate_file_hash h fs target_file = []
      \<longrightarrow> \<not> is_duplicate_file h fs source_file target_file)"
proof (intro conjI impI)
  assume "\<forall>c. map_of fs p \<noteq> Some (Regular True c)"
  then show "calculate_file_hash h fs p = []"
    by (auto simp: calculate_file_hash_def split: option.splits node.splits bool.splits)
next
  assume "calculate_file_hash h fs source_file = [] \<or>
    calculate_file_hash h fs target_file = []"
  then show "\<not> is_duplicate_file h fs source_file target_file"
    by (auto simp: is_duplicate_file_def Let_def)
qed

theorem is_duplicate_file_hash_failure_witness:
  "calculate_file_hash (\<lambda>c. ''d41d'' @ c) [([''s'', ''a.txt''], Regular False ''X''),
       ([''t'', ''a.txt''], Regular False ''X'')] [''s'', ''a.txt''] = [] \<and>
   \<not> is_duplicate_file (\<lambda>c. ''d41d'' @ c)
       [([''s'', ''a.txt''], Regular False ''X''), ([''t'', ''a.txt''], Regular False ''X'')]
       [''s'', ''a.txt''] [''t'', ''a.txt'']"
proof -
  let ?fs = "[([''s'', ''a.txt''], Regular False ''X''), ([''t'', ''a.txt''], Regular False ''X'')]"
  have u: "\<forall>c. map_of ?fs [''s'', ''a.txt''] \<noteq> Some (Regular True c)"
    by simp
  from is_duplicate_file_hash_failure
    [of ?fs "[''s'', ''a.txt'']" "\<lambda>c. ''d41d'' @ c" "[''s'', ''a.txt'']" "[''t'', ''a.txt'']"] u
  show ?thesis by blast
qed

section \<open>Size formatting, verified\<close>

lemma div_pow: "(x::rat) / 1024 / 1024 ^ j = x / 1024 ^ Suc j"
  by (simp only: power_Suc divide_divide_eq_left)

lemma bit_length_le_iff: "bit_length n \<le> k \<longleftrightarrow> n < 2 ^ k"
proof (induction n arbitrary: k rule: bit_length.induct)
  case (1 n)
  show ?case
  proof (cases "n = 0")
    case True
    then show ?thesis by (subst bit_length.simps) simp
  next
    case False
    show ?thesis
    proof (cases k)
      case 0
      with False show ?thesis by (subst bit_length.simps) simp
    next
      case (Suc k')
      have "bit_length n \<le> Suc k' \<longleftrightarrow> bit_length (n div 2) \<le> k'"
        using False by (subst bit_length.simps) simp
      also have "\<dots> \<longleftrightarrow> n div 2 < 2 ^ k'" using False by (rule "1.IH")
      also have "\<dots> \<longleftrightarrow> n < 2 ^ Suc k'" by auto
      finally show ?thesis using Suc by simp
    qed
  qed
qed

lemma as_double_exact: "n < 2 ^ 53 \<Longrightarrow> as_double n = Inr (of_nat n)"
proof -
  assume a: "n < 2 ^ 53"
  then have b: "bit_length n - 53 = 0" by (simp add: bit_length_le_iff)
  have "(2::nat) ^ 53 \<le> 2 ^ 1024" by (rule power_increasing) simp_all
  with a have "\<not> 2 ^ 1024 \<le> n" by simp
  with b show ?thesis by (simp add: as_double_def)
qed

lemma as_double_at_least:
  assumes "1024 \<le> n" and "as_double n = Inr v"
  shows "1024 \<le> v"
proof (cases "n < 2 ^ 53")
  case True
  with assms show ?thesis by (simp add: as_double_exact)
next
  case False
  define s where "s = bit_length n - 53"
  define q where "q = n div 2 ^ s"
  define m where "m = (if 2 * (n mod 2 ^ s) < 2 ^ s then q
               else if 2 ^ s < 2 * (n mod 2 ^ s) then q + 1
               else if even q then q else q + 1)"
  have "\<not> bit_length n \<le> s + 52"
  proof
    assume "bit_length n \<le> s + 52"
    then have "bit_length n \<le> 53 \<or> bit_length n \<le> bit_length n - 1" unfolding s_def by arith
    moreover have "\<not> bit_length n \<le> 53" using False by (simp add: bit_length_le_iff)
    ultimately have "bit_length n = 0" by arith
    with \<open>\<not> bit_length n \<le> 53\<close> show False by simp
  qed
  then have "2 ^ 52 * 2 ^ s \<le> n" by (simp add: bit_length_le_iff power_add mult.commute)
  then have "2 ^ 52 * 2 ^ s div 2 ^ s \<le> n div 2 ^ s" by (rule div_le_mono)
  then have q: "2 ^ 52 \<le> q" unfolding q_def by simp
  have "q \<le> m" unfolding m_def by simp
  with q have "2 ^ 52 \<le> m" by simp
  then have "2 ^ 52 * 1 \<le> m * 2 ^ s" by (intro mult_le_mono) simp_all
  then have big: "1024 \<le> m * 2 ^ s" by simp
  from assms(2) have "v = of_nat (m * 2 ^ s)"
    unfolding as_double_def Let_def s_def [symmetric] q_def [symmetric] m_def [symmetric]
    by (simp split: if_splits)
  with big show ?thesis by (metis of_nat_le_iff of_nat_numeral)
qed

lemma scale_float:
  "i + d = 4 \<Longrightarrow> \<exists>k. i + k \<le> 4 \<and> scale_size (Py_float x) i = Inr (Py_float (x / 1024 ^ k), i + k) \<and>
     (\<forall>j<k. 1024 \<le> x / 1024 ^ j) \<and> (x / 1024 ^ k < 1024 \<or> i + k = 4)"
proof (induction d arbitrary: i x)
  case 0
  then have "scale_size (Py_float x) i = Inr (Py_float x, i)"
    by (subst scale_size.simps) (simp add: size_names_def)
  with 0 have "i + 0 \<le> 4 \<and> scale_size (Py_float x) i = Inr (Py_float (x / 1024 ^ 0), i + 0) \<and>
     (\<forall>j<0. 1024 \<le> x / 1024 ^ j) \<and> (x / 1024 ^ 0 < 1024 \<or> i + 0 = 4)"
    by simp
  then show ?case by (rule exI)
next
  case (Suc d)
  then have i: "i < 4" "i + 1 + d = 4" by simp_all
  show ?case
  proof (cases "1024 \<le> x")
    case True
    from Suc.IH [OF i(2), of "x / 1024"] obtain k where k: "i + 1 + k \<le> 4"
      "scale_size (Py_float (x / 1024)) (i + 1) = Inr (Py_float (x / 1024 / 1024 ^ k), i + 1 + k)"
      "\<forall>j<k. 1024 \<le> x / 1024 / 1024 ^ j"
      "x / 1024 / 1024 ^ k < 1024 \<or> i + 1 + k = 4"
      by blast
    have s: "scale_size (Py_float x) i = scale_size (Py_float (x / 1024)) (i + 1)"
      using True i(1)
      by (subst scale_size.simps) (simp add: size_names_def at_least_1024_def as_float_def)
    have low: "\<forall>j<Suc k. 1024 \<le> x / 1024 ^ j"
    proof (intro allI impI)
      fix j assume "j < Suc k"
      show "1024 \<le> x / 1024 ^ j"
      proof (cases j)
        case 0
        with True show ?thesis by simp
      next
        case (Suc j')
        with \<open>j < Suc k\<close> k(3) have "1024 \<le> x / 1024 / 1024 ^ j'" by blast
        with Suc show ?thesis by (simp only: div_pow)
      qed
    qed
    have e: "scale_size (Py_float x) i = Inr (Py_float (x / 1024 ^ Suc k), i + Suc k)"
      using s k(2) by (simp only: div_pow) simp
    have u: "x / 1024 ^ Suc k < 1024 \<or> i + Suc k = 4"
      using k(4) by (simp only: div_pow) simp
    have b: "i + Suc k \<le> 4" using k(1) by simp
    from b e low u show ?thesis by blast
  next
    case False
    then have "scale_size (Py_float x) i = Inr (Py_float x, i)"
      by (subst scale_size.simps) (simp add: at_least_1024_def)
    with False i(1) have "i + 0 \<le> 4 \<and>
       scale_size (Py_float x) i = Inr (Py_float (x / 1024 ^ 0), i + 0) \<and>
       (\<forall>j<0. 1024 \<le> x / 1024 ^ j) \<and> (x / 1024 ^ 0 < 1024 \<or> i + 0 = 4)"
      by simp
    then show ?thesis by (rule exI)
  qed
qed

lemma format_size_double:
  assumes "0 < n" and "as_double n = Inr v"
  shows "\<exists>k\<le>4. (\<forall>j<k. 1024 \<le> v / 1024 ^ j) \<and> (v / 1024 ^ k < 1024 \<or> k = 4) \<and>
           format_size n = Inr (format_2f (v / 1024 ^ k) @ '' '' @ size_names ! k)"
proof (cases "1024 \<le> n")
  case False
  then have "n < 2 ^ 53" by simp
  with assms(2) have v: "v = of_nat n" by (simp add: as_double_exact)
  from False have "scale_size (Py_int n) 0 = Inr (Py_int n, 0)"
    by (subst scale_size.simps) (simp add: at_least_1024_def)
  with assms have f: "format_size n = Inr (format_2f v @ '' '' @ size_names ! 0)"
    by (simp add: format_size_def as_float_def)
  from False v have "v < 1024" by simp
  with f have "0 \<le> (4::nat) \<and> (\<forall>j<0. 1024 \<le> v / 1024 ^ j) \<and> (v / 1024 ^ 0 < 1024 \<or> (0::nat) = 4) \<and>
           format_size n = Inr (format_2f (v / 1024 ^ 0) @ '' '' @ size_names ! 0)"
    by simp
  then show ?thesis by blast
next
  case True
  from as_double_at_least [OF True assms(2)] have v: "1024 \<le> v" .
  from scale_float [of 1 3 "v / 1024"] obtain k where k: "1 + k \<le> 4"
      "scale_size (Py_float (v / 1024)) 1 = Inr (Py_float (v / 1024 / 1024 ^ k), 1 + k)"
      "\<forall>j<k. 1024 \<le> v / 1024 / 1024 ^ j"
      "v / 1024 / 1024 ^ k < 1024 \<or> 1 + k = 4"
    by auto
  have "scale_size (Py_int n) 0 = scale_size (Py_float (v / 1024)) (0 + 1)"
    using True assms(2)
    by (subst scale_size.simps) (simp add: size_names_def at_least_1024_def as_float_def)
  with k(2) have s: "scale_size (Py_int n) 0 = Inr (Py_float (v / 1024 ^ Suc k), Suc k)"
    by (simp only: div_pow) simp
  with assms(1) have f: "format_size n = Inr (format_2f (v / 1024 ^ Suc k) @ '' '' @ size_names ! Suc k)"
    by (simp add: format_size_def as_float_def)
  have low: "\<forall>j<Suc k. 1024 \<le> v / 1024 ^ j"
  proof (intro allI impI)
    fix j assume "j < Suc k"
    show "1024 \<le> v / 1024 ^ j"
    proof (cases j)
      case 0
      with v show ?thesis by simp
    next
      case (Suc j')
      with \<open>j < Suc k\<close> k(3) have "1024 \<le> v / 1024 / 1024 ^ j'" by blast
      with Suc show ?thesis by (simp only: div_pow)
    qed
  qed
  have u: "v / 1024 ^ Suc k < 1024 \<or> Suc k = 4"
    using k(4) by (simp only: div_pow) simp
  from k(1) have "Suc k \<le> 4" by simp
  with low u f show ?thesis by blast
qed

lemma format_size_overflow:
  assumes "as_double n = Inl e"
  shows "format_size n = Inl e"
proof -
  have "\<not> n < 2 ^ 53" using assms by (auto simp: as_double_exact)
  then have n: "1024 \<le> n" "n \<noteq> 0" by simp_all
  then have "scale_size (Py_int n) 0 = Inl e"
    using assms
    by (subst scale_size.simps) (simp add: size_names_def at_least_1024_def as_float_def)
  with n show ?thesis by (simp add: format_size_def)
qed

lemma floor_numeral_quotient:
  "\<lfloor>(numeral a :: rat) / numeral b\<rfloor> = numeral a div numeral b"
  using floor_divide_of_int_eq [of "numeral a" "numeral b", where ?'a = rat] by simp

lemma format_size_kb: "format_size 1536 = Inr ''1.50 KB''"
proof -
  have d: "as_double 1536 = Inr 1536" using as_double_exact [of 1536] by simp
  have a: "scale_size (Py_int 1536) 0 = Inr (Py_float (3 / 2), 1)"
    by (simp add: scale_size.simps size_names_def at_least_1024_def as_float_def d)
  have b: "format_2f (3 / 2) = ''1.50''"
    by (simp add: format_2f_def round_half_even_def str_nat.simps digit_def)
  show ?thesis by (simp add: format_size_def a b size_names_def as_float_def)
qed

lemma format_size_gb: "format_size 1073741824 = Inr ''1.00 GB''"
proof -
  have d: "as_double 1073741824 = Inr 1073741824" using as_double_exact [of 1073741824] by simp
  have a: "scale_size (Py_int 1073741824) 0 = Inr (Py_float 1, 3)"
    by (simp add: scale_size.simps size_names_def at_least_1024_def as_float_def d)
  have b: "format_2f 1 = ''1.00''"
    by (simp add: format_2f_def round_half_even_def str_nat.simps digit_def)
  show ?thesis by (simp add: format_size_def a b size_names_def as_float_def)
qed

lemma as_double_rounds: "as_double 9007336693694465 = Inr 9007336693694464"
proof -
  have "bit_length 9007336693694465 \<le> 54" by (simp add: bit_length_le_iff)
  moreover have "\<not> bit_length 9007336693694465 \<le> 53" by (simp add: bit_length_le_iff)
  ultimately have b: "bit_length 9007336693694465 = 54" by simp
  have "(2::nat) ^ 54 \<le> 2 ^ 1024" by (rule power_increasing) simp_all
  then have "\<not> (2::nat) ^ 1024 \<le> 9007336693694464" by simp
  then show ?thesis by (simp add: as_double_def b)
qed

lemma format_size_rounded: "format_size 9007336693694465 = Inr ''8192.12 TB''"
proof -
  have a: "scale_size (Py_int 9007336693694465) 0 = Inr (Py_float (65537 / 8), 4)"
    by (simp add: scale_size.simps size_names_def at_least_1024_def as_float_def as_double_rounds)
  have b: "format_2f (65537 / 8) = ''8192.12''"
    by (simp add: format_2f_def round_half_even_def floor_numeral_quotient Let_def
        str_nat.simps digit_def)
  show ?thesis by (simp add: format_size_def a b size_names_def as_float_def)
qed

lemma format_2f_exact_quotient: "format_2f (9007336693694465 / 1024 ^ 4) = ''8192.13''"
  by (simp add: format_2f_def round_half_even_def floor_numeral_quotient Let_def
      str_nat.simps digit_def)

lemma bit_length_power: "bit_length (2 ^ k) = Suc k"
proof -
  have "bit_length (2 ^ k) \<le> Suc k" by (simp add: bit_length_le_iff)
  moreover have "\<not> bit_length (2 ^ k) \<le> k" by (simp add: bit_length_le_iff)
  ultimately show ?thesis by simp
qed

lemma as_double_overflow: "as_double (2 ^ 1024) = Inl OverflowError"
proof -
  have m: "(2::nat) ^ 1024 = 2 ^ 52 * 2 ^ 972" by (simp only: power_add [symmetric]) simp
  have "(2::nat) ^ 1024 div 2 ^ 972 = 2 ^ 52" "(2::nat) ^ 1024 mod 2 ^ 972 = 0"
    by (simp_all only: m) simp_all
  then show ?thesis
    by (simp add: as_double_def bit_length_power Let_def del: power_numeral)
qed

text \<open>
  Claim C3, amended. \<^verbatim>\<open>format_size\<close> returns \<^verbatim>\<open>"0 B"\<close> for zero bytes (an explicit
  first branch, with no decimals), \<^verbatim>\<open>"1.50 KB"\<close> for 1536 and \<^verbatim>\<open>"1.00 GB"\<close> for
  1073741824. A positive byte count is taken as a double: the count itself below
  \<open>2 ^ 53\<close>, the nearest double from there on, and \<^verbatim>\<open>OverflowError\<close> when there is none.
  That double \<open>v\<close> is divided by 1024 as long as the value is at least 1024 and a larger
  unit is left, \<open>k\<close> times with \<open>k \<le> 4\<close>, and the quotient is printed with two decimals
  before the \<open>k\<close>-th unit name.
\<close>

theorem format_size_spec:
  "format_size 0 = Inr ''0 B'' \<and> format_size 1536 = Inr ''1.50 KB'' \<and>
   format_size 1073741824 = Inr ''1.00 GB'' \<and>
   (n < 2 ^ 53 \<longrightarrow> as_double n = Inr (of_nat n)) \<and>
   (\<forall>e. as_double n = Inl e \<longrightarrow> format_size n = Inl e) \<and>
   (0 < n \<longrightarrow>
      (\<forall>v. as_double n = Inr v \<longrightarrow>
         (\<exists>k\<le>4. (\<forall>j<k. 1024 \<le> v / 1024 ^ j) \<and> (v / 1024 ^ k < 1024 \<or> k = 4) \<and>
            format_size n = Inr (format_2f (v / 1024 ^ k) @ '' '' @ size_names ! k))))"
proof (intro conjI impI allI)
  show "format_size 0 = Inr ''0 B''" by (simp add: format_size_def)
  show "format_size 1536 = Inr ''1.50 KB''" by (rule format_size_kb)
  show "format_size 1073741824 = Inr ''1.00 GB''" by (rule format_size_gb)
next
  assume "n < 2 ^ 53"
  then show "as_double n = Inr (of_nat n)" by (rule as_double_exact)
next
  fix e assume "as_double n = Inl e"
  then show "format_size n = Inl e" by (rule format_size_overflow)
next
  fix v assume "0 < n" and "as_double n = Inr v"
  then show "\<exists>k\<le>4. (\<forall>j<k. 1024 \<le> v / 1024 ^ j) \<and> (v / 1024 ^ k < 1024 \<or> k = 4) \<and>
            format_size n = Inr (format_2f (v / 1024 ^ k) @ '' '' @ size_names ! k)"
    by (rule format_size_double)
qed

theorem format_size_spec_witness:
  "format_size 5000000 = Inr ''4.77 MB'' \<and> format_size (2 ^ 1024) = Inl OverflowError"
proof -
  have d: "as_double 5000000 = Inr 5000000"
    using format_size_spec [of 5000000] by simp
  have "(0::nat) < 5000000" by simp
  with format_size_spec [of 5000000] d obtain k where k: "k \<le> 4"
    "\<forall>j<k. (1024::rat) \<le> 5000000 / 1024 ^ j"
    "(5000000::rat) / 1024 ^ k < 1024 \<or> k = 4"
    "format_size 5000000 = Inr (format_2f (5000000 / 1024 ^ k) @ '' '' @ size_names ! k)"
    by blast
  have "k = 2"
  proof (rule ccontr)
    assume "k \<noteq> 2"
    with k(1) consider "k = 0" | "k = 1" | "k = 3" | "k = 4" by arith
    then show False
    proof cases
      case 1
      with k(3) show False by simp
    next
      case 2
      with k(3) show False by simp
    next
      case 3
      then have "2 < k" by simp
      with k(2) have "(1024::rat) \<le> 5000000 / 1024 ^ 2" by blast
      then show False by simp
    next
      case 4
      then have "2 < k" by simp
      with k(2) have "(1024::rat) \<le> 5000000 / 1024 ^ 2" by blast
      then show False by simp
    qed
  qed
  moreover have "format_2f (5000000 / 1024 ^ 2) = ''4.77''"
    by (simp add: format_2f_def round_half_even_def floor_numeral_quotient Let_def
        str_nat.simps digit_def)
  ultimately have a: "format_size 5000000 = Inr ''4.77 MB''"
    using k(4) by (simp add: size_names_def)
  have b: "format_size (2 ^ 1024) = Inl OverflowError"
    using format_size_spec [of "2 ^ 1024"] as_double_overflow by blast
  from a b show ?thesis by simp
qed

text \<open>
  The claim as written gives \<^verbatim>\<open>"0.00 B"\<close> for zero bytes; the code does not. And what
  is divided is the double, not the byte count: \<open>2 ^ 53 + 2 ^ 37 + 1\<close> bytes are printed
  as \<^verbatim>\<open>"8192.12 TB"\<close>, where the exact quotient by \<open>1024 ^ 4\<close> rounds to 8192.13.
\<close>

theorem format_size_counterexample:
  "format_size 0 \<noteq> Inr ''0.00 B'' \<and>
   format_size 9007336693694465 = Inr ''8192.12 TB'' \<and>
   format_2f (9007336693694465 / 1024 ^ 4) = ''8192.13''"
proof -
  have "format_size 0 \<noteq> Inr ''0.00 B''" by (simp add: format_size_def)
  moreover have "format_size 9007336693694465 = Inr ''8192.12 TB''"
    by (rule format_size_rounded)
  moreover have "format_2f (9007336693694465 / 1024 ^ 4) = ''8192.13''"
    by (rule format_2f_exact_quotient)
  ultimately show ?thesis by simp
qed

section \<open>The unique name is the first free slot\<close>

lemma unique_loop_free: "\<not> path_exists fs (unique_loop fs d stm sfx tp c)"
  by (induction fs d stm sfx tp c rule: unique_loop.induct) (subst unique_loop.simps, simp)

lemma unique_loop_literal: "\<not> path_exists fs tp \<Longrightarrow> unique_loop fs d stm sfx tp c = tp"
  by (subst unique_loop.simps) simp

lemma unique_loop_first_free:
  "path_exists fs tp \<Longrightarrow>
   \<exists>n\<ge>c. unique_loop fs d stm sfx tp c = joinpath d (new_filename stm sfx n) \<and>
     (\<forall>k. c \<le> k \<and> k < n \<longrightarrow> path_exists fs (joinpath d (new_filename stm sfx k)))"
proof (induction fs d stm sfx tp c rule: unique_loop.induct)
  case (1 fs d stm sfx tp c)
  let ?cand = "\<lambda>k. joinpath d (new_filename stm sfx k)"
  have u: "unique_loop fs d stm sfx tp c = unique_loop fs d stm sfx (?cand c) (c + 1)"
    using "1.prems" by (subst unique_loop.simps) simp
  show ?case
  proof (cases "path_exists fs (?cand c)")
    case False
    then have "unique_loop fs d stm sfx (?cand c) (c + 1) = ?cand c"
      by (rule unique_loop_literal)
    with u have "c \<le> c \<and> unique_loop fs d stm sfx tp c = ?cand c \<and>
        (\<forall>k. c \<le> k \<and> k < c \<longrightarrow> path_exists fs (?cand k))" by auto
    then show ?thesis by blast
  next
    case True
    from "1.IH" [OF "1.prems" True] obtain n where n: "c + 1 \<le> n"
      "unique_loop fs d stm sfx (?cand c) (c + 1) = ?cand n"
      "\<forall>k. c + 1 \<le> k \<and> k < n \<longrightarrow> path_exists fs (?cand k)"
      by blast
    have "\<forall>k. c \<le> k \<and> k < n \<longrightarrow> path_exists fs (?cand k)"
    proof (intro allI impI)
      fix k assume "c \<le> k \<and> k < n"
      then consider "k = c" | "c + 1 \<le> k \<and> k < n" by linarith
      then show "path_exists fs (?cand k)" using True n(3) by cases auto
    qed
    with n u have "c \<le> n \<and> unique_loop fs d stm sfx tp c = ?cand n \<and>
        (\<forall>k. c \<le> k \<and> k < n \<longrightarrow> path_exists fs (?cand k))" by auto
    then show ?thesis by blast
  qed
qed

lemma name_joinpath [simp]: "name (joinpath d n) = n"
  by (simp add: name_def joinpath_def)

lemma generate_unique_filename_free:
  "\<not> path_exists fs (generate_unique_filename fs d fn)"
  by (simp add: generate_unique_filename_def Let_def unique_loop_free)

text \<open>The position of the last dot, and what appending dot-free text does to it.\<close>

lemma rfind_None_iff: "rfind c xs = None \<longleftrightarrow> c \<notin> set xs"
  by (induction xs) (auto split: option.splits)

lemma rfind_append_free: "c \<notin> set ys \<Longrightarrow> rfind c (xs @ ys) = rfind c xs"
  by (induction xs) (auto simp: rfind_None_iff split: option.splits)

lemma rfind_append_found:
  "rfind c ys = Some i \<Longrightarrow> rfind c (xs @ ys) = Some (length xs + i)"
  by (induction xs) (auto split: option.splits)

lemma rfind_Some_nth: "rfind c xs = Some i \<Longrightarrow> i < length xs \<and> xs ! i = c \<and> c \<notin> set (drop (Suc i) xs)"
proof (induction xs arbitrary: i)
  case Nil
  then show ?case by simp
next
  case (Cons x xs)
  then show ?case
    by (auto simp: rfind_None_iff split: option.splits if_splits)
qed


lemma rfind_drop: "rfind c xs = Some i \<Longrightarrow> rfind c (drop i xs) = Some 0"
proof (induction xs arbitrary: i)
  case Nil
  then show ?case by simp
next
  case (Cons x xs)
  then show ?case by (auto split: option.splits if_splits)
qed

lemma digit_in: "d < 10 \<Longrightarrow> digit d \<in> set ''0123456789''"
  unfolding digit_def by (rule nth_mem) simp

lemma str_nat_digits: "set (str_nat n) \<subseteq> set ''0123456789''"
proof (induction n rule: str_nat.induct)
  case (1 n)
  show ?case
  proof (cases "n < 10")
    case True
    then have "str_nat n = [digit n]" by (subst str_nat.simps) simp
    with digit_in [OF True] show ?thesis by simp
  next
    case False
    then have e: "str_nat n = str_nat (n div 10) @ [digit (n mod 10)]"
      by (subst str_nat.simps) simp
    have "digit (n mod 10) \<in> set ''0123456789''" by (rule digit_in) simp
    with "1.IH" [OF False] e show ?thesis by simp
  qed
qed

lemma no_dot_in_counter: "CHR ''.'' \<notin> set (''_'' @ str_nat n)"
  using str_nat_digits [of n] by auto

lemma suffix_new_filename:
  assumes "fn = [] \<or> last fn \<noteq> CHR ''.''"
  shows "suffix (new_filename (stem fn) (suffix fn) n) = suffix fn"
proof (cases "rfind (CHR ''.'') fn")
  case None
  then have "stem fn = fn" "suffix fn = []" by (simp_all add: stem_def suffix_def)
  moreover have "rfind (CHR ''.'') (fn @ ''_'' @ str_nat n) = None"
    using None rfind_append_free [OF no_dot_in_counter [of n], of fn] by simp
  ultimately show ?thesis by (simp add: new_filename_def suffix_def)
next
  case (Some i)
  from rfind_Some_nth [OF Some] have il: "i < length fn" and ic: "fn ! i = CHR ''.''" by simp_all
  show ?thesis
  proof (cases "0 < i \<and> Suc i < length fn")
    case True
    then have st: "stem fn = take i fn" and su: "suffix fn = drop i fn"
      using Some by (simp_all add: stem_def suffix_def)
    let ?pre = "take i fn @ ''_'' @ str_nat n"
    have r: "rfind (CHR ''.'') (?pre @ drop i fn) = Some (length ?pre + 0)"
      by (rule rfind_append_found) (rule rfind_drop [OF Some])
    have l: "Suc (length ?pre) < length (?pre @ drop i fn)" using True by simp
    have "suffix (?pre @ drop i fn) = drop (length ?pre) (?pre @ drop i fn)"
      using r l by (simp add: suffix_def)
    then have "suffix (?pre @ drop i fn) = drop i fn" by simp
    with st su show ?thesis by (simp add: new_filename_def)
  next
    case False
    then have st: "stem fn = fn" and su: "suffix fn = []"
      using Some by (simp_all add: stem_def suffix_def)
    have i0: "i = 0"
    proof (rule ccontr)
      assume "i \<noteq> 0"
      with False il have "Suc i = length fn" by simp
      with ic have "last fn = CHR ''.''" by (cases fn rule: rev_cases) (auto simp: nth_append)
      moreover from il have "fn \<noteq> []" by auto
      ultimately show False using assms by simp
    qed
    have "rfind (CHR ''.'') (fn @ ''_'' @ str_nat n) = Some 0"
      using Some i0 rfind_append_free [OF no_dot_in_counter [of n], of fn] by simp
    with st su show ?thesis by (simp add: new_filename_def suffix_def)
  qed
qed

text \<open>
  Claim C7, amended. \<^verbatim>\<open>generate_unique_filename\<close> returns the literal path when it is
  free; otherwise it returns the stem, an underscore, the counter and the suffix, for the
  least counter \<open>n \<ge> 1\<close> whose path is free (every smaller counter names an existing
  path). The returned path never exists, the result is a function of the disk alone, and
  it has the suffix of the desired name whenever that name does not end in a dot.
\<close>

theorem generate_unique_filename_first_free:
  "(\<not> path_exists fs (joinpath d fn) \<longrightarrow> generate_unique_filename fs d fn = joinpath d fn) \<and>
   (path_exists fs (joinpath d fn) \<longrightarrow>
      (\<exists>n\<ge>1. generate_unique_filename fs d fn = joinpath d (stem fn @ ''_'' @ str_nat n @ suffix fn) \<and>
         (\<forall>k. 1 \<le> k \<and> k < n \<longrightarrow>
            path_exists fs (joinpath d (stem fn @ ''_'' @ str_nat k @ suffix fn))))) \<and>
   \<not> path_exists fs (generate_unique_filename fs d fn) \<and>
   (fn = [] \<or> last fn \<noteq> CHR ''.'' \<longrightarrow>
      suffix (name (generate_unique_filename fs d fn)) = suffix fn)"
proof (intro conjI impI)
  assume "\<not> path_exists fs (joinpath d fn)"
  then show "generate_unique_filename fs d fn = joinpath d fn"
    by (simp add: generate_unique_filename_def Let_def unique_loop_literal)
next
  assume "path_exists fs (joinpath d fn)"
  from unique_loop_first_free [OF this, of 1 d "stem fn" "suffix fn"]
  show "\<exists>n\<ge>1. generate_unique_filename fs d fn = joinpath d (stem fn @ ''_'' @ str_nat n @ suffix fn) \<and>
         (\<forall>k. 1 \<le> k \<and> k < n \<longrightarrow>
            path_exists fs (joinpath d (stem fn @ ''_'' @ str_nat k @ suffix fn)))"
    by (simp add: generate_unique_filename_def Let_def new_filename_def)
next
  show "\<not> path_exists fs (generate_unique_filename fs d fn)"
    by (rule generate_unique_filename_free)
next
  assume nd: "fn = [] \<or> last fn \<noteq> CHR ''.''"
  show "suffix (name (generate_unique_filename fs d fn)) = suffix fn"
  proof (cases "path_exists fs (joinpath d fn)")
    case False
    then show ?thesis
      by (simp add: generate_unique_filename_def Let_def unique_loop_literal)
  next
    case True
    from unique_loop_first_free [OF this, of 1 d "stem fn" "suffix fn"]
    obtain n where "generate_unique_filename fs d fn = joinpath d (new_filename (stem fn) (suffix fn) n)"
      by (auto simp: generate_unique_filename_def Let_def)
    with suffix_new_filename [OF nd, of n] show ?thesis by simp
  qed
qed

theorem generate_unique_filename_first_free_witness:
  "generate_unique_filename [] [''t''] ''a.txt'' = joinpath [''t''] ''a.txt'' \<and>
   (\<exists>n\<ge>1. generate_unique_filename
        [([''t'', ''a.txt''], Regular True ''X''), ([''t'', ''a_1.txt''], Regular True ''Y'')]
        [''t''] ''a.txt'' = joinpath [''t''] (stem ''a.txt'' @ ''_'' @ str_nat n @ suffix ''a.txt'') \<and>
      (\<forall>k. 1 \<le> k \<and> k < n \<longrightarrow>
         path_exists [([''t'', ''a.txt''], Regular True ''X''), ([''t'', ''a_1.txt''], Regular True ''Y'')]
           (joinpath [''t''] (stem ''a.txt'' @ ''_'' @ str_nat k @ suffix ''a.txt'')))) \<and>
   suffix (name (generate_unique_filename
        [([''t'', ''a.txt''], Regular True ''X''), ([''t'', ''a_1.txt''], Regular True ''Y'')]
        [''t''] ''a.txt'')) = suffix ''a.txt''"
proof -
  let ?fs = "[([''t'', ''a.txt''], Regular True ''X''), ([''t'', ''a_1.txt''], Regular True ''Y'')]"
  have free: "\<not> path_exists [] (joinpath [''t''] ''a.txt'')"
    by (simp add: path_exists_def)
  have taken: "path_exists ?fs (joinpath [''t''] ''a.txt'')"
    by (simp add: path_exists_def joinpath_def)
  have nodot: "''a.txt'' = [] \<or> last ''a.txt'' \<noteq> CHR ''.''"
    by simp
  from generate_unique_filename_first_free [of "[]" "[''t'']" "''a.txt''"] free
  have a: "generate_unique_filename [] [''t''] ''a.txt'' = joinpath [''t''] ''a.txt''"
    by blast
  from generate_unique_filename_first_free [of ?fs "[''t'']" "''a.txt''"] taken nodot
  show ?thesis using a by blast
qed

text \<open>
  A desired name that ends in a dot has an empty suffix, and the name generated for it
  has the suffix \<^verbatim>\<open>._1\<close>: the extension is not preserved there.
\<close>

theorem generate_unique_filename_trailing_dot_counterexample:
  "suffix (name (generate_unique_filename [([''t'', ''foo.''], Regular True ''X'')] [''t''] ''foo.''))
     \<noteq> suffix ''foo.''"
  by (simp add: generate_unique_filename_def unique_loop.simps path_exists_def joinpath_def new_filename_def name_def stem_def suffix_def str_nat.simps digit_def)

section \<open>One iteration of the processing loop\<close>

lemma map_of_update_other:
  "q \<noteq> p \<Longrightarrow> map_of (AList.update p v fs) q = map_of fs q"
  by (simp add: update_conv')

lemma copy2_fresh:
  assumes "map_of fs src = Some (Regular True c)" and "\<not> path_exists fs dst"
  shows "copy2 fs src dst = Inr (AList.update dst (Regular True c) fs)"
  using assms by (simp add: copy2_def path_exists_def)

lemma copy2_unreadable:
  "(\<forall>c. map_of fs src \<noteq> Some (Regular True c)) \<Longrightarrow> copy2 fs src dst = Inl OSError"
  by (auto simp: copy2_def split: option.splits node.splits bool.splits)

lemma notify_fields [simp]:
  "disk (notify i f st) = disk st" "target_dir (notify i f st) = target_dir st"
  "skipped_files (notify i f st) = skipped_files st"
  "processed_files (notify i f st) = processed_files st"
  "total_size (notify i f st) = total_size st"
  "category_stats (notify i f st) = category_stats st"
  "stop_requested (notify i f st) = stop_requested st"
  "progress_callback (notify i f st) = progress_callback st"
  "total_files (notify i f st) = total_files st"
  "statistics (notify i f st) = statistics st"
  "source_dir (notify i f st) = source_dir st"
  by (simp_all add: notify_def call_progress_def)

lemma process_file_cases:
  "process_file env i f st =
     (let st1 = notify i f st;
          u = generate_unique_filename (disk st) (joinpath (target_dir st) (category_name (get_file_category f))) (name f)
      in if is_duplicate_file (hexdigest env) (disk st) f (literal_target (target_dir st) f)
         then st1\<lparr>skipped_files := skipped_files st @ [f]\<rparr>
         else case map_of (disk st) f of
           Some (Regular True c) \<Rightarrow>
             if stat_raises env f
             then st1\<lparr>disk := AList.update u (Regular True c) (disk st),
                     skipped_files := skipped_files st @ [f]\<rparr>
             else st1\<lparr>disk := AList.update u (Regular True c) (disk st),
                     total_size := total_size st + length c,
                     category_stats := (category_stats st)
                        (get_file_category f := category_stats st (get_file_category f) + 1),
                     processed_files := processed_files st @ [u]\<rparr>
         | _ \<Rightarrow> st1\<lparr>skipped_files := skipped_files st @ [f]\<rparr>)"
proof -
  let ?u = "generate_unique_filename (disk st) (joinpath (target_dir st) (category_name (get_file_category f))) (name f)"
  have fr: "\<not> path_exists (disk st) ?u" by (rule generate_unique_filename_free)
  show ?thesis
  proof (cases "\<exists>c. map_of (disk st) f = Some (Regular True c)")
    case True
    then obtain c where c: "map_of (disk st) f = Some (Regular True c)" by blast
    have ne: "f \<noteq> ?u" using fr c by (auto simp: path_exists_def)
    have sz: "st_size (AList.update ?u (Regular True c) (disk st)) f = length c"
      using c ne by (simp add: st_size_def map_of_update_other)
    show ?thesis
      using c copy2_fresh [OF c fr] sz
      by (simp add: process_file_def Let_def notify_def [symmetric] literal_target_def)
  next
    case False
    then have "copy2 (disk st) f ?u = Inl OSError" by (intro copy2_unreadable) simp
    with False show ?thesis
      by (auto simp: process_file_def Let_def notify_def [symmetric] literal_target_def
          split: option.splits node.splits bool.splits)
  qed
qed

text \<open>The equations that evaluate a run on a concrete disk.\<close>

lemmas fs_eval = path_exists_def is_file_def ancestors_def mkdir_def copy2_def rglob_def
  joinpath_def name_def category_name_def file_categories_def upt_rec
lemmas name_eval = get_file_category_def kelvin_sign_def lower_char_def suffix_def stem_def
  generate_unique_filename_def unique_loop.simps new_filename_def str_nat.simps digit_def
lemmas run_eval = organize_files_def create_target_directories_def scan_files_def
  process_file_def call_progress_def poll_def stop_organizing_def show_statistics_def
  init_def is_duplicate_file_def calculate_file_hash_def st_size_def format_size_def
  literal_target_def

text \<open>
  Claim C10. Being in the skipped list does not mean that nothing was written: when the
  file is readable and not a duplicate, the copy succeeds; if reading the size of the
  source then raises, the handler records the file as skipped, the copy stays at the
  path the name resolver gave (which was free before), and neither the total size nor any
  category counter changes.
\<close>

theorem skipped_after_copy:
  assumes "map_of (disk st) f = Some (Regular True c)"
    and "\<not> is_duplicate_file (hexdigest env) (disk st) f (literal_target (target_dir st) f)"
    and "stat_raises env f"
  shows "let st' = process_file env i f st;
             u = generate_unique_filename (disk st)
                   (joinpath (target_dir st) (category_name (get_file_category f))) (name f)
         in skipped_files st' = skipped_files st @ [f] \<and>
            processed_files st' = processed_files st \<and>
            \<not> path_exists (disk st) u \<and>
            map_of (disk st') u = Some (Regular True c) \<and>
            total_size st' = total_size st \<and>
            category_stats st' = category_stats st"
  using assms generate_unique_filename_free
  by (simp add: process_file_cases Let_def update_conv')

theorem skipped_after_copy_witness:
  "(let st = init [''s''] [''t''] True [([''s'', ''a.txt''], Regular True ''X'')];
        st' = process_file \<lparr>hexdigest = (\<lambda>c. ''md5:'' @ c), stat_raises = (\<lambda>p. True),
                stop_called = (\<lambda>n. False)\<rparr> 1 [''s'', ''a.txt''] st
    in skipped_files st' = [[''s'', ''a.txt'']] \<and> processed_files st' = [] \<and>
       map_of (disk st') [''t'', category_name Documents, ''a.txt''] = Some (Regular True ''X'') \<and>
       total_size st' = 0 \<and> category_stats st' Documents = 0)"
proof -
  let ?env = "\<lparr>hexdigest = (\<lambda>c. ''md5:'' @ c), stat_raises = (\<lambda>p. True),
                stop_called = (\<lambda>n. False)\<rparr>"
  let ?st = "init [''s''] [''t''] True [([''s'', ''a.txt''], Regular True ''X'')]"
  have a: "map_of (disk ?st) [''s'', ''a.txt''] = Some (Regular True ''X'')"
    by (simp add: init_def)
  have b: "\<not> is_duplicate_file (hexdigest ?env) (disk ?st) [''s'', ''a.txt'']
      (literal_target (target_dir ?st) [''s'', ''a.txt''])"
    by (simp add: init_def is_duplicate_file_def path_exists_def literal_target_def joinpath_def)
  have c: "stat_raises ?env [''s'', ''a.txt'']" by simp
  have u: "generate_unique_filename (disk ?st)
      (joinpath (target_dir ?st) (category_name (get_file_category [''s'', ''a.txt''])))
      (name [''s'', ''a.txt'']) = [''t'', category_name Documents, ''a.txt'']"
    by (simp add: init_def fs_eval name_eval)
  from skipped_after_copy [OF a b c, of 1] u show ?thesis
    by (simp add: Let_def init_def)
qed

text \<open>The same on a whole run: one file, skipped, copied, and an empty report.\<close>

lemma skipped_copy_run:
  "(case organize_files \<lparr>hexdigest = (\<lambda>c. ''md5:'' @ c), stat_raises = (\<lambda>p. True),
        stop_called = (\<lambda>n. False)\<rparr>
        (init [''s''] [''t''] True [([''s'', ''a.txt''], Regular True ''X'')]) of
      (out, st) \<Rightarrow> out = Returned \<and> skipped_files st = [[''s'', ''a.txt'']] \<and>
        processed_files st = [] \<and>
        map_of (disk st) [''t'', category_name Documents, ''a.txt''] = Some (Regular True ''X'') \<and>
        statistics st = Some \<lparr>category_lines = [], processed_count = 0, skipped_count = 1,
          size_text = Some ''0 B''\<rparr>)"
  by (simp add: fs_eval name_eval run_eval Let_def)

section \<open>Scanning, and runs that find nothing\<close>

lemma scan_loop_result:
  "\<exists>scan. scan_loop i t items st acc =
      (st\<lparr>calls := calls st @ scan\<rparr>, acc @ filter (is_file (disk st)) items) \<and>
     (\<forall>c \<in> set scan. \<exists>k n. c = (k, t, Scanning n)) \<and>
     (progress_callback st \<longrightarrow> length scan = length items) \<and>
     (\<not> progress_callback st \<longrightarrow> scan = [])"
proof (induction items arbitrary: i st acc)
  case Nil
  have "scan_loop i t [] st acc = (st\<lparr>calls := calls st @ []\<rparr>, acc @ filter (is_file (disk st)) [])"
    by simp
  then show ?case by (intro exI [of _ "[]"]) simp
next
  case (Cons item rest)
  let ?st1 = "if progress_callback st
              then call_progress (i + 1) t (Scanning (name item)) st else st"
  let ?acc1 = "if is_file (disk ?st1) item then acc @ [item] else acc"
  from Cons.IH [of "i + 1" ?st1 ?acc1] obtain scan where s:
    "scan_loop (i + 1) t rest ?st1 ?acc1 =
       (?st1\<lparr>calls := calls ?st1 @ scan\<rparr>, ?acc1 @ filter (is_file (disk ?st1)) rest)"
    "\<forall>c \<in> set scan. \<exists>k n. c = (k, t, Scanning n)"
    "progress_callback ?st1 \<longrightarrow> length scan = length rest"
    "\<not> progress_callback ?st1 \<longrightarrow> scan = []"
    by blast
  have e: "scan_loop i t (item # rest) st acc = scan_loop (i + 1) t rest ?st1 ?acc1"
    by (simp add: Let_def)
  show ?case
  proof (cases "progress_callback st")
    case True
    have "scan_loop i t (item # rest) st acc =
        (st\<lparr>calls := calls st @ ((i + 1, t, Scanning (name item)) # scan)\<rparr>,
         acc @ filter (is_file (disk st)) (item # rest))"
      using True s(1) e by (simp add: call_progress_def)
    moreover have "\<forall>c \<in> set ((i + 1, t, Scanning (name item)) # scan). \<exists>k n. c = (k, t, Scanning n)"
      using s(2) by simp
    moreover have "length ((i + 1, t, Scanning (name item)) # scan) = length (item # rest)"
      using True s(3) by (simp add: call_progress_def)
    ultimately show ?thesis using True by blast
  next
    case False
    have "scan_loop i t (item # rest) st acc =
        (st\<lparr>calls := calls st @ []\<rparr>, acc @ filter (is_file (disk st)) (item # rest))"
      using False s(1) s(4) e by simp
    then show ?thesis using False by (intro exI [of _ "[]"]) simp
  qed
qed

lemma scan_files_result:
  "\<exists>scan. scan_files st = (st\<lparr>calls := calls st @ scan\<rparr>, source_files (disk st) (source_dir st)) \<and>
     (\<forall>c \<in> set scan. \<exists>k t n. c = (k, t, Scanning n)) \<and>
     (\<not> progress_callback st \<longrightarrow> scan = [])"
proof -
  let ?items = "rglob (disk st) (source_dir st)"
  from scan_loop_result [of 0 "length ?items" ?items st "[]"] obtain scan where s:
    "scan_loop 0 (length ?items) ?items st [] =
       (st\<lparr>calls := calls st @ scan\<rparr>, [] @ filter (is_file (disk st)) ?items)"
    "\<forall>c \<in> set scan. \<exists>k n. c = (k, length ?items, Scanning n)"
    "\<not> progress_callback st \<longrightarrow> scan = []"
    by blast
  have a: "scan_files st = (st\<lparr>calls := calls st @ scan\<rparr>, source_files (disk st) (source_dir st))"
    using s(1) by (simp add: scan_files_def Let_def source_files_def)
  have b: "\<forall>c \<in> set scan. \<exists>k t n. c = (k, t, Scanning n)"
    using s(2) by blast
  from a b s(3) show ?thesis by blast
qed

lemma create_target_directories_result:
  "\<exists>fs. create_target_directories st = (e, st1) \<longrightarrow> st1 = st\<lparr>disk := fs\<rparr>"
  by (auto simp: create_target_directories_def split: prod.splits)

text \<open>
  Claim C2, amended. When the category directories can be created and the scanner finds
  no regular file, \<^verbatim>\<open>organize_files\<close> returns right after the scan: no statistics are
  printed, no final progress call is made (the only calls are the scan-phase ones, one
  per directory entry), the processed and skipped lists are untouched, and the disk is as
  the directory creation left it.
\<close>

theorem organize_files_no_files:
  assumes "create_target_directories st = (None, st1)" and "scan_files st1 = (st2, [])"
  shows "organize_files env st = (Returned, st2) \<and>
         statistics st2 = statistics st \<and>
         processed_files st2 = processed_files st \<and>
         skipped_files st2 = skipped_files st \<and>
         disk st2 = disk st1 \<and>
         (\<exists>scan. calls st2 = calls st @ scan \<and> (\<forall>c \<in> set scan. \<exists>k t n. c = (k, t, Scanning n)))"
proof -
  from assms(1) obtain fs where st1: "st1 = st\<lparr>disk := fs\<rparr>"
    by (auto simp: create_target_directories_def split: prod.splits)
  from scan_files_result [of st1] assms(2) obtain scan where
    st2: "st2 = st1\<lparr>calls := calls st1 @ scan\<rparr>" and
    sc: "\<forall>c \<in> set scan. \<exists>k t n. c = (k, t, Scanning n)"
    by auto
  have "organize_files env st = (Returned, st2)"
    using assms by (simp add: organize_files_def)
  with st1 st2 sc show ?thesis by auto
qed

theorem organize_files_no_files_witness:
  "organize_files \<lparr>hexdigest = (\<lambda>c. ''md5:'' @ c), stat_raises = (\<lambda>p. False),
        stop_called = (\<lambda>n. False)\<rparr>
     (init [''s''] [''t''] True [([''s''], Directory), ([''s'', ''d''], Directory)])
   = (Returned, fst (scan_files (snd (create_target_directories
        (init [''s''] [''t''] True [([''s''], Directory), ([''s'', ''d''], Directory)]))))) \<and>
   calls (fst (scan_files (snd (create_target_directories
        (init [''s''] [''t''] True [([''s''], Directory), ([''s'', ''d''], Directory)])))))
     = [(1, 1, Scanning ''d'')]"
proof -
  let ?st = "init [''s''] [''t''] True [([''s''], Directory), ([''s'', ''d''], Directory)]"
  have a: "fst (create_target_directories ?st) = None"
    by (simp add: fs_eval run_eval)
  have b: "snd (scan_files (snd (create_target_directories ?st))) = []"
    by (simp add: fs_eval run_eval)
  have c: "calls (fst (scan_files (snd (create_target_directories ?st)))) = [(1, 1, Scanning ''d'')]"
    by (simp add: fs_eval run_eval)
  from a have a': "create_target_directories ?st = (None, snd (create_target_directories ?st))"
    by (metis prod.collapse)
  from b have b': "scan_files (snd (create_target_directories ?st))
      = (fst (scan_files (snd (create_target_directories ?st))), [])"
    by (metis prod.collapse)
  from organize_files_no_files [OF a' b'] c show ?thesis by simp
qed

text \<open>
  On an empty source directory the run makes no progress call at all and prints no
  report, where the claim as written has a final call and an empty report.
\<close>

theorem organize_files_no_files_counterexample:
  "calls (snd (organize_files \<lparr>hexdigest = (\<lambda>c. ''md5:'' @ c), stat_raises = (\<lambda>p. False),
        stop_called = (\<lambda>n. False)\<rparr> (init [''s''] [''t''] True [([''s''], Directory)]))) = [] \<and>
   statistics (snd (organize_files \<lparr>hexdigest = (\<lambda>c. ''md5:'' @ c), stat_raises = (\<lambda>p. False),
        stop_called = (\<lambda>n. False)\<rparr> (init [''s''] [''t''] True [([''s''], Directory)]))) = None"
  by (simp add: fs_eval run_eval)

text \<open>
  Claim C4. The claim is that a run of an engine built without a progress callback goes
  through the whole pipeline without raising. The two calls after the loop are not
  guarded, unlike the calls in the scan and in the loop: with one file to process and no
  callback the run raises \<^verbatim>\<open>TypeError\<close>.
\<close>

theorem organize_files_without_callback:
  "fst (organize_files \<lparr>hexdigest = (\<lambda>c. ''md5:'' @ c), stat_raises = (\<lambda>p. False),
        stop_called = (\<lambda>n. False)\<rparr>
     (init [''s''] [''t''] False [([''s''], Directory), ([''s'', ''a.txt''], Regular True ''X'')]))
   = Raised TypeError"
  by (simp add: fs_eval name_eval run_eval Let_def)

section \<open>The run only adds to the disk\<close>

lemma append_dir_keeps:
  "map_of fs q = Some n \<Longrightarrow> map_of (fs @ [(d, Directory)]) q = Some n"
  by (simp add: map_add_Some_iff)

lemma make_dirs_keeps:
  "map_of fs q = Some n \<Longrightarrow>
   map_of (foldl (\<lambda>f d. if path_exists f d then f else f @ [(d, Directory)]) fs ds) q = Some n"
  by (induction ds arbitrary: fs) (simp_all add: append_dir_keeps)

lemma mkdir_keeps:
  assumes "mkdir fs p = Inr fs'" and "map_of fs q = Some n"
  shows "map_of fs' q = Some n"
proof (cases "map_of fs p")
  case None
  with assms(1) have "fs' = foldl (\<lambda>f d. if path_exists f d then f else f @ [(d, Directory)])
      fs (ancestors p @ [p])"
    by (simp add: mkdir_def split: if_splits)
  with assms(2) show ?thesis by (simp only: make_dirs_keeps)
next
  case (Some nd)
  with assms(1) have "fs' = fs" by (cases nd) (simp_all add: mkdir_def)
  with assms(2) show ?thesis by simp
qed

lemma create_dirs_keeps:
  "create_dirs target cs fs = (e, fs') \<Longrightarrow> map_of fs q = Some n \<Longrightarrow> map_of fs' q = Some n"
proof (induction cs arbitrary: fs)
  case Nil
  then show ?case by simp
next
  case (Cons c cs)
  show ?case
  proof (cases "mkdir fs (joinpath target (category_name c))")
    case (Inl err)
    with Cons.prems show ?thesis by simp
  next
    case (Inr fs1)
    with Cons.prems have "create_dirs target cs fs1 = (e, fs')" by simp
    moreover have "map_of fs1 q = Some n" using Inr Cons.prems(2) by (rule mkdir_keeps)
    ultimately show ?thesis by (rule Cons.IH)
  qed
qed

lemma create_target_directories_keeps:
  "create_target_directories st = (e, st1) \<Longrightarrow> map_of (disk st) q = Some n \<Longrightarrow>
   map_of (disk st1) q = Some n"
  by (auto simp: create_target_directories_def split: prod.splits dest: create_dirs_keeps)

lemma process_file_keeps:
  assumes "map_of (disk st) q = Some n"
  shows "map_of (disk (process_file env i f st)) q = Some n"
proof -
  let ?u = "generate_unique_filename (disk st)
      (joinpath (target_dir st) (category_name (get_file_category f))) (name f)"
  have "\<not> path_exists (disk st) ?u" by (rule generate_unique_filename_free)
  with assms have "q \<noteq> ?u" by (auto simp: path_exists_def)
  with assms show ?thesis
    by (simp add: process_file_cases Let_def map_of_update_other
        split: option.splits node.splits bool.splits)
qed

lemma poll_disk [simp]: "disk (poll env n st) = disk st"
  by (simp add: poll_def stop_organizing_def)

lemma process_loop_keeps:
  "map_of (disk st) q = Some n \<Longrightarrow> map_of (disk (process_loop env k files st)) q = Some n"
proof (induction files arbitrary: k st)
  case Nil
  then show ?case by simp
next
  case (Cons f files)
  have "map_of (disk (process_file env (Suc k) f (poll env k st))) q = Some n"
    using Cons.prems by (intro process_file_keeps) simp
  from Cons.IH [OF this] Cons.prems show ?case by (simp add: Let_def)
qed

lemma scan_files_disk: "scan_files st = (st2, files) \<Longrightarrow> disk st2 = disk st"
  using scan_files_result [of st] by auto

text \<open>
  Claim C9. Whatever the run does (it completes, is cancelled or raises), every node
  that was on the disk before \<^verbatim>\<open>organize_files\<close> is on the disk afterwards with the
  same content: in particular every file under the source root is still there,
  unchanged. Directories are only added, and a copy is only written to a path that did
  not exist.
\<close>

theorem organize_files_keeps_files:
  assumes "organize_files env st = (out, st')" and "map_of (disk st) p = Some node"
  shows "map_of (disk st') p = Some node"
proof -
  obtain e st1 where c: "create_target_directories st = (e, st1)" by (cases "create_target_directories st")
  from create_target_directories_keeps [OF c assms(2)] have k1: "map_of (disk st1) p = Some node" .
  show ?thesis
  proof (cases e)
    case (Some err)
    with c assms(1) have "st' = st1" by (simp add: organize_files_def)
    with k1 show ?thesis by simp
  next
    case None
    obtain st2 files where s: "scan_files st1 = (st2, files)" by (cases "scan_files st1")
    from scan_files_disk [OF s] k1 have k2: "map_of (disk st2) p = Some node" by simp
    show ?thesis
    proof (cases "files = []")
      case True
      with None c s assms(1) have "st' = st2" by (simp add: organize_files_def)
      with k2 show ?thesis by simp
    next
      case False
      let ?st3 = "st2\<lparr>total_files := length files, category_stats := (\<lambda>c. 0), total_size := 0\<rparr>"
      let ?st4 = "process_loop env 0 files ?st3"
      have "map_of (disk ?st3) p = Some node" using k2 by simp
      then have k4: "map_of (disk ?st4) p = Some node" by (rule process_loop_keeps)
      have "disk st' = disk ?st4"
        using None c s False assms(1)
        by (auto simp: organize_files_def Let_def call_progress_def show_statistics_def
            split: if_splits sum.splits)
      with k4 show ?thesis by simp
    qed
  qed
qed

theorem organize_files_keeps_files_witness:
  "map_of (disk (snd (organize_files \<lparr>hexdigest = (\<lambda>c. ''md5:'' @ c), stat_raises = (\<lambda>p. False),
        stop_called = (\<lambda>n. False)\<rparr>
     (init [''s''] [''t''] True [([''s''], Directory), ([''s'', ''a.txt''], Regular True ''X'')]))))
     [''s'', ''a.txt''] = Some (Regular True ''X'')"
proof -
  let ?env = "\<lparr>hexdigest = (\<lambda>c. ''md5:'' @ c), stat_raises = (\<lambda>p. False),
        stop_called = (\<lambda>n. False)\<rparr>"
  let ?st = "init [''s''] [''t''] True [([''s''], Directory), ([''s'', ''a.txt''], Regular True ''X'')]"
  have a: "organize_files ?env ?st = (fst (organize_files ?env ?st), snd (organize_files ?env ?st))"
    by simp
  have b: "map_of (disk ?st) [''s'', ''a.txt''] = Some (Regular True ''X'')"
    by (simp add: init_def)
  from organize_files_keeps_files [OF a b] show ?thesis .
qed

section \<open>Cancellation\<close>

lemma process_file_flags [simp]:
  "stop_requested (process_file env i f st) = stop_requested st"
  "progress_callback (process_file env i f st) = progress_callback st"
  "total_files (process_file env i f st) = total_files st"
  "target_dir (process_file env i f st) = target_dir st"
  "source_dir (process_file env i f st) = source_dir st"
  "statistics (process_file env i f st) = statistics st"
  by (simp_all add: process_file_cases Let_def split: option.splits node.splits bool.splits)

lemma handle_files_flags [simp]:
  "stop_requested (handle_files env k files st) = stop_requested st"
  "progress_callback (handle_files env k files st) = progress_callback st"
  "total_files (handle_files env k files st) = total_files st"
  "target_dir (handle_files env k files st) = target_dir st"
  "statistics (handle_files env k files st) = statistics st"
  by (induction files arbitrary: k st) simp_all

lemma process_loop_before_stop:
  "\<not> stop_requested st \<Longrightarrow> \<forall>n. k \<le> n \<and> n < k + length xs \<longrightarrow> \<not> stop_called env n \<Longrightarrow>
   process_loop env k (xs @ ys) st = process_loop env (k + length xs) ys (handle_files env k xs st)"
proof (induction xs arbitrary: k st)
  case Nil
  then show ?case by simp
next
  case (Cons x xs)
  from Cons.prems(2) have nk: "\<not> stop_called env k" by simp
  then have p: "poll env k st = st" by (simp add: poll_def)
  have "\<forall>n. Suc k \<le> n \<and> n < Suc k + length xs \<longrightarrow> \<not> stop_called env n"
    using Cons.prems(2) by simp
  moreover have "\<not> stop_requested (process_file env (Suc k) x st)"
    using Cons.prems(1) by simp
  ultimately have "process_loop env (Suc k) (xs @ ys) (process_file env (Suc k) x st)
      = process_loop env (Suc k + length xs) ys
          (handle_files env (Suc k) xs (process_file env (Suc k) x st))"
    by (intro Cons.IH)
  with p Cons.prems(1) show ?case by (simp add: Let_def)
qed

lemma stop_organizing_again: "stop_requested st \<Longrightarrow> stop_organizing st = st"
  by (simp add: stop_organizing_def)

lemma process_loop_at_stop:
  assumes "stop_requested st \<or> stop_called env k"
  shows "process_loop env k ys st = stop_organizing st"
proof -
  have "poll env k st = stop_organizing st"
    using assms by (auto simp: poll_def stop_organizing_again)
  then show ?thesis by (cases ys) (simp_all add: stop_organizing_def Let_def)
qed

text \<open>Each file that the loop body handles ends in exactly one of the two lists.\<close>

lemma process_file_handled_length:
  "length (processed_files (process_file env i f st)) + length (skipped_files (process_file env i f st))
     = length (processed_files st) + length (skipped_files st) + 1"
  by (simp add: process_file_cases Let_def split: option.splits node.splits bool.splits)

lemma handle_files_handled_length:
  "length (processed_files (handle_files env k files st))
     + length (skipped_files (handle_files env k files st))
     = length (processed_files st) + length (skipped_files st) + length files"
proof (induction files arbitrary: k st)
  case Nil
  then show ?case by simp
next
  case (Cons f files)
  from Cons.IH [of "Suc k" "process_file env (Suc k) f st"]
    process_file_handled_length [of env "Suc k" f st]
  show ?case by simp
qed

text \<open>
  Claim C5, amended. Take a run with a progress callback that finds \<open>M \<ge> 1\<close> files, in
  which the stop flag is first set once \<open>N \<le> M\<close> files have been handled (it is set at
  the start, or \<^verbatim>\<open>stop_organizing\<close> is called then). The flag is read at the top of the
  next iteration (or after the last one), so the run returns with the flag set, having
  handled exactly the first \<open>N\<close> files: the processed list, the skipped list and the disk
  are those of the loop body run over these \<open>N\<close> files and no other. Each of the \<open>N\<close> files
  is in the processed list (it was copied) or in the skipped list (it was a duplicate or
  it failed), so the two lists together grow by exactly \<open>N\<close> entries. The last progress
  call is \<open>(M, M, Stop_signal)\<close>, and no statistics are printed.
\<close>

theorem organize_files_cancelled:
  assumes "create_target_directories st = (None, st1)"
    and "scan_files st1 = (st2, all_files)"
    and "all_files \<noteq> []"
    and "progress_callback st"
    and "N \<le> length all_files"
    and "stop_requested st \<or> stop_called env N"
    and "\<forall>n<N. \<not> stop_requested st \<and> \<not> stop_called env n"
  shows "let M = length all_files;
             st3 = handle_files env 0 (take N all_files)
                     (st2\<lparr>total_files := M, category_stats := (\<lambda>c. 0), total_size := 0\<rparr>);
             final = snd (organize_files env st)
         in fst (organize_files env st) = Returned \<and>
            stop_requested final \<and>
            processed_files final = processed_files st3 \<and>
            skipped_files final = skipped_files st3 \<and>
            disk final = disk st3 \<and>
            length (processed_files final) + length (skipped_files final)
              = length (processed_files st) + length (skipped_files st) + N \<and>
            calls final = calls st3 @ [(M, M, Stop_signal)] \<and>
            statistics final = statistics st"
proof -
  let ?M = "length all_files"
  let ?s = "st2\<lparr>total_files := ?M, category_stats := (\<lambda>c. 0), total_size := 0\<rparr>"
  let ?st3 = "handle_files env 0 (take N all_files) ?s"
  from assms(1) obtain fs where st1: "st1 = st\<lparr>disk := fs\<rparr>"
    by (auto simp: create_target_directories_def split: prod.splits)
  from scan_files_result [of st1] assms(2) obtain scan where
    st2: "st2 = st1\<lparr>calls := calls st1 @ scan\<rparr>" by auto
  from st1 st2 assms(4) have f: "progress_callback ?s"
    "stop_requested ?s = stop_requested st"
    "statistics ?s = statistics st" "processed_files ?s = processed_files st"
    "skipped_files ?s = skipped_files st"
    by simp_all
  have before: "process_loop env 0 all_files ?s = process_loop env N (drop N all_files) ?st3"
  proof (cases "N = 0")
    case True
    then show ?thesis by simp
  next
    case False
    with assms(7) have "\<not> stop_requested st" by blast
    with f(2) have "\<not> stop_requested ?s" by simp
    moreover have "\<forall>n. 0 \<le> n \<and> n < 0 + length (take N all_files) \<longrightarrow> \<not> stop_called env n"
      using assms(5,7) by simp
    ultimately have "process_loop env 0 (take N all_files @ drop N all_files) ?s
        = process_loop env (0 + length (take N all_files)) (drop N all_files) ?st3"
      by (rule process_loop_before_stop)
    then show ?thesis using assms(5) by simp
  qed
  have "stop_requested ?st3 \<or> stop_called env N"
    using assms(6) f(2) by simp
  then have "process_loop env N (drop N all_files) ?st3 = stop_organizing ?st3"
    by (rule process_loop_at_stop)
  with before have loop: "process_loop env 0 all_files ?s = stop_organizing ?st3" by simp
  have run: "organize_files env st
      = (Returned, call_progress ?M ?M Stop_signal (stop_organizing ?st3))"
    using assms(1,2,3) loop f(1)
    by (simp add: organize_files_def Let_def stop_organizing_def)
  have len: "length (processed_files ?st3) + length (skipped_files ?st3)
      = length (processed_files st) + length (skipped_files st) + N"
    using handle_files_handled_length [of env 0 "take N all_files" ?s] f(4,5) assms(5) by simp
  show ?thesis
    using run len f(3) by (simp add: Let_def call_progress_def stop_organizing_def)
qed

theorem organize_files_cancelled_witness:
  "(let final = snd (organize_files \<lparr>hexdigest = (\<lambda>c. ''md5:'' @ c), stat_raises = (\<lambda>p. False),
              stop_called = (\<lambda>n. n = 1)\<rparr>
            (init [''s''] [''t''] True [([''s'', ''a.txt''], Regular True ''X''),
              ([''s'', ''b.txt''], Regular True ''Y'')]))
    in processed_files final = [[''t'', category_name Documents, ''a.txt'']] \<and>
       skipped_files final = [] \<and>
       \<not> path_exists (disk final) [''t'', category_name Documents, ''b.txt''] \<and>
       last (calls final) = (2, 2, Stop_signal))"
proof -
  let ?env = "\<lparr>hexdigest = (\<lambda>c. ''md5:'' @ c), stat_raises = (\<lambda>p. False),
              stop_called = (\<lambda>n. n = 1)\<rparr>"
  let ?st = "init [''s''] [''t''] True [([''s'', ''a.txt''], Regular True ''X''),
              ([''s'', ''b.txt''], Regular True ''Y'')]"
  let ?st1 = "snd (create_target_directories ?st)"
  let ?st2 = "fst (scan_files ?st1)"
  let ?files = "[[''s'', ''a.txt''], [''s'', ''b.txt'']]"
  have "fst (create_target_directories ?st) = None"
    by (simp add: fs_eval run_eval)
  then have a: "create_target_directories ?st = (None, ?st1)"
    by (metis prod.collapse)
  have "snd (scan_files ?st1) = ?files"
    by (simp add: fs_eval run_eval)
  then have b: "scan_files ?st1 = (?st2, ?files)"
    by (metis prod.collapse)
  have c: "?files \<noteq> []" by simp
  have d: "progress_callback ?st" by (simp add: init_def)
  have f: "(1::nat) \<le> length ?files" by simp
  have g: "stop_requested ?st \<or> stop_called ?env 1" by simp
  have h: "\<forall>n<1. \<not> stop_requested ?st \<and> \<not> stop_called ?env n" by (simp add: init_def)
  let ?st3 = "handle_files ?env 0 (take 1 ?files)
      (?st2\<lparr>total_files := length ?files, category_stats := (\<lambda>c. 0), total_size := 0\<rparr>)"
  have p: "processed_files ?st3 = [[''t'', category_name Documents, ''a.txt'']]"
    by (simp add: fs_eval name_eval run_eval Let_def)
  have q: "\<not> path_exists (disk ?st3) [''t'', category_name Documents, ''b.txt'']"
    by (simp add: fs_eval name_eval run_eval Let_def)
  have r: "skipped_files ?st3 = []"
    by (simp add: fs_eval name_eval run_eval Let_def)
  from organize_files_cancelled [OF a b c d f g h] p q r show ?thesis
    by (simp add: Let_def)
qed

text \<open>
  Three runs on which the claim as written fails. In the first the source holds two files
  and the first one is already in the target with the same content; \<^verbatim>\<open>stop_organizing\<close>
  is called once one file has been handled. The run ends in the cancelled state, after
  one of two files, but that file was skipped as a duplicate: the processed list is
  empty, not of length one. In the second the flag is set and the source holds no file:
  the run returns after the scan, and no progress call reports the cancelled state. In
  the third the engine has no progress callback: the call that should report the
  cancelled state raises \<^verbatim>\<open>TypeError\<close>.
\<close>

theorem organize_files_cancelled_counterexample:
  "fst (organize_files \<lparr>hexdigest = (\<lambda>c. ''md5:'' @ c), stat_raises = (\<lambda>p. False),
        stop_called = (\<lambda>n. n = 1)\<rparr>
     (init [''s''] [''t''] True
        [([''s''], Directory), ([''s'', ''a.txt''], Regular True ''X''),
         ([''s'', ''b.txt''], Regular True ''Y''), ([''t''], Directory),
         ([''t'', category_name Documents], Directory),
         ([''t'', category_name Documents, ''a.txt''], Regular True ''X'')])) = Returned \<and>
   stop_requested (snd (organize_files \<lparr>hexdigest = (\<lambda>c. ''md5:'' @ c), stat_raises = (\<lambda>p. False),
        stop_called = (\<lambda>n. n = 1)\<rparr>
     (init [''s''] [''t''] True
        [([''s''], Directory), ([''s'', ''a.txt''], Regular True ''X''),
         ([''s'', ''b.txt''], Regular True ''Y''), ([''t''], Directory),
         ([''t'', category_name Documents], Directory),
         ([''t'', category_name Documents, ''a.txt''], Regular True ''X'')]))) \<and>
   processed_files (snd (organize_files \<lparr>hexdigest = (\<lambda>c. ''md5:'' @ c), stat_raises = (\<lambda>p. False),
        stop_called = (\<lambda>n. n = 1)\<rparr>
     (init [''s''] [''t''] True
        [([''s''], Directory), ([''s'', ''a.txt''], Regular True ''X''),
         ([''s'', ''b.txt''], Regular True ''Y''), ([''t''], Directory),
         ([''t'', category_name Documents], Directory),
         ([''t'', category_name Documents, ''a.txt''], Regular True ''X'')]))) = [] \<and>
   skipped_files (snd (organize_files \<lparr>hexdigest = (\<lambda>c. ''md5:'' @ c), stat_raises = (\<lambda>p. False),
        stop_called = (\<lambda>n. n = 1)\<rparr>
     (init [''s''] [''t''] True
        [([''s''], Directory), ([''s'', ''a.txt''], Regular True ''X''),
         ([''s'', ''b.txt''], Regular True ''Y''), ([''t''], Directory),
         ([''t'', category_name Documents], Directory),
         ([''t'', category_name Documents, ''a.txt''], Regular True ''X'')]))) = [[''s'', ''a.txt'']] \<and>
   last (calls (snd (organize_files \<lparr>hexdigest = (\<lambda>c. ''md5:'' @ c), stat_raises = (\<lambda>p. False),
        stop_called = (\<lambda>n. n = 1)\<rparr>
     (init [''s''] [''t''] True
        [([''s''], Directory), ([''s'', ''a.txt''], Regular True ''X''),
         ([''s'', ''b.txt''], Regular True ''Y''), ([''t''], Directory),
         ([''t'', category_name Documents], Directory),
         ([''t'', category_name Documents, ''a.txt''], Regular True ''X'')])))) = (2, 2, Stop_signal) \<and>
   stop_requested (snd (organize_files \<lparr>hexdigest = (\<lambda>c. ''md5:'' @ c), stat_raises = (\<lambda>p. False),
        stop_called = (\<lambda>n. True)\<rparr>
     (stop_organizing (init [''s''] [''t''] True [([''s''], Directory)])))) \<and>
   calls (snd (organize_files \<lparr>hexdigest = (\<lambda>c. ''md5:'' @ c), stat_raises = (\<lambda>p. False),
        stop_called = (\<lambda>n. True)\<rparr>
     (stop_organizing (init [''s''] [''t''] True [([''s''], Directory)])))) = [] \<and>
   fst (organize_files \<lparr>hexdigest = (\<lambda>c. ''md5:'' @ c), stat_raises = (\<lambda>p. False),
        stop_called = (\<lambda>n. True)\<rparr>
     (init [''s''] [''t''] False [([''s'', ''a.txt''], Regular True ''X'')])) = Raised TypeError"
proof -
  let ?env = "\<lparr>hexdigest = (\<lambda>c. ''md5:'' @ c), stat_raises = (\<lambda>p. False),
        stop_called = (\<lambda>n. n = 1)\<rparr>"
  let ?st = "init [''s''] [''t''] True
        [([''s''], Directory), ([''s'', ''a.txt''], Regular True ''X''),
         ([''s'', ''b.txt''], Regular True ''Y''), ([''t''], Directory),
         ([''t'', category_name Documents], Directory),
         ([''t'', category_name Documents, ''a.txt''], Regular True ''X'')]"
  let ?always = "\<lparr>hexdigest = (\<lambda>c. ''md5:'' @ c), stat_raises = (\<lambda>p. False),
        stop_called = (\<lambda>n. True)\<rparr>"
  let ?stopped = "stop_organizing (init [''s''] [''t''] True [([''s''], Directory)])"
  have a: "fst (organize_files ?env ?st) = Returned"
    by (simp add: fs_eval name_eval run_eval Let_def)
  have b: "stop_requested (snd (organize_files ?env ?st))"
    by (simp add: fs_eval name_eval run_eval Let_def)
  have c: "processed_files (snd (organize_files ?env ?st)) = []"
    by (simp add: fs_eval name_eval run_eval Let_def)
  have d: "skipped_files (snd (organize_files ?env ?st)) = [[''s'', ''a.txt'']]"
    by (simp add: fs_eval name_eval run_eval Let_def)
  have e: "last (calls (snd (organize_files ?env ?st))) = (2, 2, Stop_signal)"
    by (simp add: fs_eval name_eval run_eval Let_def)
  have f: "stop_requested (snd (organize_files ?always ?stopped))"
    by (simp add: fs_eval run_eval)
  have g: "calls (snd (organize_files ?always ?stopped)) = []"
    by (simp add: fs_eval run_eval)
  have h: "fst (organize_files ?always
      (init [''s''] [''t''] False [([''s'', ''a.txt''], Regular True ''X'')])) = Raised TypeError"
    by (simp add: fs_eval name_eval run_eval Let_def)
  from a b c d e f g h show ?thesis by simp
qed

section \<open>What directory creation adds\<close>

lemma path_exists_append:
  "path_exists (xs @ ys) q \<longleftrightarrow> path_exists xs q \<or> path_exists ys q"
  by (auto simp: path_exists_def map_add_def split: option.splits)

lemma make_dirs_shape:
  "\<exists>extra. foldl (\<lambda>f d. if path_exists f d then f else f @ [(d, Directory)]) fs ds = fs @ extra \<and>
     fst ` set extra \<subseteq> set ds \<and> snd ` set extra \<subseteq> {Directory} \<and>
     (\<forall>d \<in> set ds. path_exists (fs @ extra) d)"
proof (induction ds arbitrary: fs)
  case Nil
  show ?case by simp
next
  case (Cons d ds)
  let ?step = "\<lambda>f d. if path_exists f d then f else f @ [(d, Directory)]"
  let ?f1 = "?step fs d"
  from Cons.IH [of ?f1] obtain extra where
    e: "foldl ?step ?f1 ds = ?f1 @ extra" "fst ` set extra \<subseteq> set ds"
      "snd ` set extra \<subseteq> {Directory}" "\<forall>d \<in> set ds. path_exists (?f1 @ extra) d"
    by blast
  have d1: "path_exists ?f1 d" by (simp add: path_exists_append) (simp add: path_exists_def)
  then have d2: "path_exists (?f1 @ extra) d" by (simp only: path_exists_append) simp
  show ?case
  proof (cases "path_exists fs d")
    case True
    then have f: "?f1 = fs" by simp
    have "foldl ?step fs (d # ds) = fs @ extra \<and> fst ` set extra \<subseteq> set (d # ds) \<and>
        snd ` set extra \<subseteq> {Directory} \<and> (\<forall>x \<in> set (d # ds). path_exists (fs @ extra) x)"
      using e d2 True by auto
    then show ?thesis by blast
  next
    case False
    then have f: "?f1 = fs @ [(d, Directory)]" by simp
    have "foldl ?step fs (d # ds) = fs @ ((d, Directory) # extra) \<and>
        fst ` set ((d, Directory) # extra) \<subseteq> set (d # ds) \<and>
        snd ` set ((d, Directory) # extra) \<subseteq> {Directory} \<and>
        (\<forall>x \<in> set (d # ds). path_exists (fs @ ((d, Directory) # extra)) x)"
      using e d2 False by auto
    then show ?thesis by blast
  qed
qed

text \<open>A path \<open>q\<close> is a prefix of \<open>p\<close> when \<open>take (length q) p = q\<close>.\<close>

lemma ancestors_prefix: "q \<in> set (ancestors p @ [p]) \<Longrightarrow> take (length q) p = q"
  by (auto simp: ancestors_def min_def)

lemma mkdir_shape:
  assumes "mkdir fs p = Inr fs'"
  shows "\<exists>extra. fs' = fs @ extra \<and> (\<forall>q \<in> fst ` set extra. take (length q) p = q) \<and>
           snd ` set extra \<subseteq> {Directory}"
    and "map_of fs' p = Some Directory"
proof -
  let ?step = "\<lambda>f d. if path_exists f d then f else f @ [(d, Directory)]"
  have "(\<exists>extra. fs' = fs @ extra \<and> (\<forall>q \<in> fst ` set extra. take (length q) p = q) \<and>
           snd ` set extra \<subseteq> {Directory}) \<and> map_of fs' p = Some Directory"
  proof (cases "map_of fs p")
    case None
    with assms have fs': "fs' = foldl ?step fs (ancestors p @ [p])"
      by (simp add: mkdir_def split: if_splits)
    from make_dirs_shape [of fs "ancestors p @ [p]"] obtain extra where
      e: "foldl ?step fs (ancestors p @ [p]) = fs @ extra"
        "fst ` set extra \<subseteq> set (ancestors p @ [p])"
        "snd ` set extra \<subseteq> {Directory}"
        "\<forall>d \<in> set (ancestors p @ [p]). path_exists (fs @ extra) d"
      by blast
    from e(4) have "path_exists (fs @ extra) p" by simp
    with None have "map_of extra p \<noteq> None"
      by (simp add: path_exists_def map_add_def)
    then obtain nd where nd: "map_of extra p = Some nd" by blast
    then have "(p, nd) \<in> set extra" by (rule map_of_SomeD)
    with e(3) have "nd = Directory" by force
    with nd None have m: "map_of (fs @ extra) p = Some Directory"
      by (simp add: map_add_def)
    have "\<forall>q \<in> fst ` set extra. take (length q) p = q"
      using e(2) ancestors_prefix by blast
    with e(1,3) m fs' show ?thesis by auto
  next
    case (Some nd)
    with assms have "fs' = fs \<and> nd = Directory"
      by (cases nd) (simp_all add: mkdir_def)
    with Some have "fs' = fs @ [] \<and> (\<forall>q \<in> fst ` set ([] :: filesystem). take (length q) p = q) \<and>
        snd ` set ([] :: filesystem) \<subseteq> {Directory} \<and> map_of fs' p = Some Directory"
      by simp
    then show ?thesis by blast
  qed
  then show "\<exists>extra. fs' = fs @ extra \<and> (\<forall>q \<in> fst ` set extra. take (length q) p = q) \<and>
           snd ` set extra \<subseteq> {Directory}"
    and "map_of fs' p = Some Directory" by blast+
qed

lemma create_dirs_shape:
  "create_dirs target cs fs = (e, fs') \<Longrightarrow>
   \<exists>extra. fs' = fs @ extra \<and>
     (\<forall>q \<in> fst ` set extra. \<exists>c. take (length q) (joinpath target (category_name c)) = q)"
proof (induction cs arbitrary: fs)
  case Nil
  then have "fs' = fs @ []" by simp
  then show ?case by force
next
  case (Cons c cs)
  show ?case
  proof (cases "mkdir fs (joinpath target (category_name c))")
    case (Inl err)
    with Cons.prems have "fs' = fs @ []" by simp
    then show ?thesis by force
  next
    case (Inr fs1)
    from mkdir_shape(1) [OF Inr] obtain x1 where
      x1: "fs1 = fs @ x1" "\<forall>q \<in> fst ` set x1. take (length q) (joinpath target (category_name c)) = q"
      by blast
    from Inr Cons.prems have "create_dirs target cs fs1 = (e, fs')" by simp
    from Cons.IH [OF this] obtain x2 where
      x2: "fs' = fs1 @ x2"
        "\<forall>q \<in> fst ` set x2. \<exists>c. take (length q) (joinpath target (category_name c)) = q"
      by blast
    have "fs' = fs @ (x1 @ x2)" using x1(1) x2(1) by simp
    moreover have "\<forall>q \<in> fst ` set (x1 @ x2). \<exists>c. take (length q) (joinpath target (category_name c)) = q"
      using x1(2) x2(2) by auto
    ultimately show ?thesis by blast
  qed
qed

lemma create_dirs_made:
  "create_dirs target cs fs = (None, fs') \<Longrightarrow>
   \<forall>c \<in> set cs. map_of fs' (joinpath target (category_name c)) = Some Directory"
proof (induction cs arbitrary: fs)
  case Nil
  then show ?case by simp
next
  case (Cons c cs)
  show ?case
  proof (cases "mkdir fs (joinpath target (category_name c))")
    case (Inl err)
    with Cons.prems show ?thesis by simp
  next
    case (Inr fs1)
    with Cons.prems have r: "create_dirs target cs fs1 = (None, fs')" by simp
    from mkdir_shape(2) [OF Inr] have "map_of fs1 (joinpath target (category_name c)) = Some Directory" .
    with r have "map_of fs' (joinpath target (category_name c)) = Some Directory"
      by (rule create_dirs_keeps)
    with Cons.IH [OF r] show ?thesis by simp
  qed
qed

lemma create_dirs_again:
  "\<forall>c \<in> set cs. map_of fs (joinpath target (category_name c)) = Some Directory \<Longrightarrow>
   create_dirs target cs fs = (None, fs)"
  by (induction cs) (simp_all add: mkdir_def)

section \<open>Running twice\<close>

text \<open>Paths below the source, when the two trees are disjoint.\<close>

lemma prefix_of_target_not_below_source:
  assumes "take (length source) target \<noteq> source"
    and "take (length q) (joinpath target c) = q"
  shows "\<not> (length source < length q \<and> take (length source) q = source)"
proof
  assume a: "length source < length q \<and> take (length source) q = source"
  have "length (take (length q) (joinpath target c)) \<le> length target + 1"
    by (simp add: joinpath_def)
  then have "length q \<le> length target + 1" by (simp only: assms(2))
  with a have l: "length source \<le> length target" by simp
  have "take (length source) (take (length q) (joinpath target c)) = take (length source) q"
    by (simp only: assms(2))
  moreover have "take (length source) (take (length q) (joinpath target c))
      = take (length source) (joinpath target c)"
    using a by (simp add: min_def)
  ultimately have "take (length source) (joinpath target c) = source"
    using a by simp
  with l have "take (length source) target = source"
    by (simp add: joinpath_def)
  with assms(1) show False by simp
qed

lemma literal_target_not_below_source:
  assumes "take (length source) target \<noteq> source" and "take (length target) source \<noteq> target"
  shows "\<not> (length source < length (literal_target target f) \<and>
            take (length source) (literal_target target f) = source)"
proof
  let ?c = "category_name (get_file_category f)"
  assume a: "length source < length (literal_target target f) \<and>
            take (length source) (literal_target target f) = source"
  then have l: "length source \<le> length target + 1"
    by (simp add: literal_target_def joinpath_def)
  from a have t: "take (length source) (target @ [?c, name f]) = source"
    by (simp add: literal_target_def joinpath_def)
  show False
  proof (cases "length source \<le> length target")
    case True
    with t have "take (length source) target = source" by simp
    with assms(1) show False by simp
  next
    case False
    with l have e: "length source = length target + 1" by simp
    with t have "source = target @ [?c]" by simp
    then have "take (length target) source = target" by simp
    with assms(2) show False by simp
  qed
qed

lemma rglob_append:
  "\<forall>q \<in> fst ` set extra. \<not> (length d < length q \<and> take (length d) q = d) \<Longrightarrow>
   rglob (fs @ extra) d = rglob fs d"
  by (auto simp: rglob_def filter_empty_conv)

lemma rglob_exists: "f \<in> set (rglob fs d) \<Longrightarrow> path_exists fs f"
  by (auto simp: rglob_def path_exists_iff)

lemma is_file_kept:
  assumes "path_exists fs f" and "\<forall>q n. map_of fs q = Some n \<longrightarrow> map_of fs' q = Some n"
  shows "is_file fs' f = is_file fs f"
proof -
  from assms(1) obtain n where n: "map_of fs f = Some n" by (auto simp: path_exists_def)
  with assms(2) have "map_of fs' f = Some n" by blast
  with n show ?thesis by (simp add: is_file_def)
qed

lemma source_files_same:
  assumes "rglob fs' d = rglob fs d"
    and "\<forall>q n. map_of fs q = Some n \<longrightarrow> map_of fs' q = Some n"
  shows "source_files fs' d = source_files fs d"
proof -
  have "filter (is_file fs') (rglob fs d) = filter (is_file fs) (rglob fs d)"
  proof (rule filter_cong)
    fix x assume "x \<in> set (rglob fs d)"
    then have "path_exists fs x" by (rule rglob_exists)
    then show "is_file fs' x = is_file fs x" using assms(2) by (rule is_file_kept)
  qed simp
  with assms(1) show ?thesis by (simp add: source_files_def)
qed

lemma literal_target_inj_name:
  "literal_target target f = literal_target target g \<Longrightarrow> name f = name g"
  by (simp add: literal_target_def joinpath_def)

text \<open>A readable file whose literal destination is free is copied there.\<close>

lemma process_file_copies:
  assumes "map_of (disk st) f = Some (Regular True c)"
    and "\<not> path_exists (disk st) (literal_target (target_dir st) f)"
    and "\<not> stat_raises env f"
  shows "process_file env i f st =
     (notify i f st)\<lparr>disk := AList.update (literal_target (target_dir st) f) (Regular True c) (disk st),
        total_size := total_size st + length c,
        category_stats := (category_stats st)
           (get_file_category f := category_stats st (get_file_category f) + 1),
        processed_files := processed_files st @ [literal_target (target_dir st) f]\<rparr>"
proof -
  have d: "\<not> is_duplicate_file (hexdigest env) (disk st) f (literal_target (target_dir st) f)"
    using assms(2) by (simp add: is_duplicate_file_def)
  have u: "generate_unique_filename (disk st)
      (joinpath (target_dir st) (category_name (get_file_category f))) (name f)
      = literal_target (target_dir st) f"
    using assms(2)
    by (simp add: generate_unique_filename_def Let_def unique_loop_literal literal_target_def)
  show ?thesis
    using assms(1,3) d by (simp add: process_file_cases u Let_def)
qed

text \<open>A readable file whose literal destination holds the same bytes is skipped.\<close>

lemma process_file_skips:
  assumes "map_of (disk st) f = Some (Regular True c)"
    and "map_of (disk st) (literal_target (target_dir st) f) = Some (Regular True c)"
    and "hexdigest env c \<noteq> []"
  shows "process_file env i f st = (notify i f st)\<lparr>skipped_files := skipped_files st @ [f]\<rparr>"
proof -
  have "is_duplicate_file (hexdigest env) (disk st) f (literal_target (target_dir st) f)"
    using assms by (simp add: is_duplicate_file_def path_exists_def calculate_file_hash_def)
  then show ?thesis by (simp add: process_file_cases Let_def)
qed

lemma handle_files_keeps:
  "map_of (disk st) q = Some n \<Longrightarrow> map_of (disk (handle_files env k files st)) q = Some n"
proof (induction files arbitrary: k st)
  case Nil
  then show ?case by simp
next
  case (Cons f files)
  have "map_of (disk (process_file env (Suc k) f st)) q = Some n"
    using Cons.prems by (rule process_file_keeps)
  from Cons.IH [OF this] show ?case by simp
qed

text \<open>
  The first run: every file is readable, the names are pairwise distinct, the literal
  destinations are free and none of them is one of the files. Then each file is copied
  to its literal destination, and nothing else is written.
\<close>

lemma handle_files_copies:
  assumes "\<forall>f \<in> set xs. \<exists>c. map_of (disk st) f = Some (Regular True c)"
    and "distinct (map name xs)"
    and "\<forall>f \<in> set xs. \<not> path_exists (disk st) (literal_target (target_dir st) f)"
    and "\<forall>f \<in> set xs. \<forall>g \<in> set xs. literal_target (target_dir st) f \<noteq> g"
    and "\<forall>p. \<not> stat_raises env p"
  shows "processed_files (handle_files env k xs st)
           = processed_files st @ map (literal_target (target_dir st)) xs \<and>
         skipped_files (handle_files env k xs st) = skipped_files st \<and>
         map fst (disk (handle_files env k xs st))
           = map fst (disk st) @ map (literal_target (target_dir st)) xs \<and>
         (\<forall>f \<in> set xs. map_of (disk (handle_files env k xs st)) (literal_target (target_dir st) f)
            = map_of (disk st) f)"
  using assms
proof (induction xs arbitrary: k st)
  case Nil
  show ?case by simp
next
  case (Cons f xs)
  let ?lit = "literal_target (target_dir st)"
  from Cons.prems(1) obtain c where c: "map_of (disk st) f = Some (Regular True c)" by auto
  from Cons.prems(3) have free: "\<not> path_exists (disk st) (?lit f)" by simp
  from Cons.prems(5) have ns: "\<not> stat_raises env f" by simp
  let ?d = "AList.update (?lit f) (Regular True c) (disk st)"
  let ?st = "process_file env (Suc k) f st"
  have step: "?st = (notify (Suc k) f st)\<lparr>disk := ?d,
        total_size := total_size st + length c,
        category_stats := (category_stats st)
           (get_file_category f := category_stats st (get_file_category f) + 1),
        processed_files := processed_files st @ [?lit f]\<rparr>"
    using c free ns by (rule process_file_copies)
  have d: "disk ?st = ?d" and t: "target_dir ?st = target_dir st"
    and p: "processed_files ?st = processed_files st @ [?lit f]"
    and s: "skipped_files ?st = skipped_files st"
    by (simp_all add: step)
  have keys: "map fst ?d = map fst (disk st) @ [?lit f]"
    using free by (simp add: update_keys path_exists_iff)
  have other: "\<And>q. q \<noteq> ?lit f \<Longrightarrow> map_of ?d q = map_of (disk st) q"
    by (simp add: update_conv')
  have a1: "\<forall>g \<in> set xs. \<exists>c. map_of (disk ?st) g = Some (Regular True c)"
  proof
    fix g assume g: "g \<in> set xs"
    with Cons.prems(4) have "?lit f \<noteq> g" by simp
    then have "map_of ?d g = map_of (disk st) g" by (intro other) simp
    with Cons.prems(1) g d show "\<exists>c. map_of (disk ?st) g = Some (Regular True c)" by simp
  qed
  have a2: "distinct (map name xs)" using Cons.prems(2) by simp
  have a3: "\<forall>g \<in> set xs. \<not> path_exists (disk ?st) (literal_target (target_dir ?st) g)"
  proof
    fix g assume g: "g \<in> set xs"
    from Cons.prems(2) have "name f \<notin> name ` set xs" by simp
    with g have "name g \<noteq> name f" by (metis imageI)
    then have ne: "?lit g \<noteq> ?lit f" by (auto dest: literal_target_inj_name)
    from Cons.prems(3) g have "\<not> path_exists (disk st) (?lit g)" by simp
    with ne show "\<not> path_exists (disk ?st) (literal_target (target_dir ?st) g)"
      by (simp add: d t path_exists_def other)
  qed
  have a4: "\<forall>g \<in> set xs. \<forall>h \<in> set xs. literal_target (target_dir ?st) g \<noteq> h"
    using Cons.prems(4) by (simp add: t)
  note ih0 = Cons.IH [OF a1 a2 a3 a4 Cons.prems(5), of "Suc k", unfolded t]
  from ih0
  have ih: "processed_files (handle_files env (Suc k) xs ?st)
           = processed_files ?st @ map ?lit xs"
    "skipped_files (handle_files env (Suc k) xs ?st) = skipped_files ?st"
    "map fst (disk (handle_files env (Suc k) xs ?st)) = map fst (disk ?st) @ map ?lit xs"
    "\<forall>g \<in> set xs. map_of (disk (handle_files env (Suc k) xs ?st)) (?lit g)
            = map_of (disk ?st) g"
    by blast+
  have r1: "processed_files (handle_files env k (f # xs) st)
      = processed_files st @ map ?lit (f # xs)"
    using ih(1) p by simp
  have r2: "skipped_files (handle_files env k (f # xs) st) = skipped_files st"
    using ih(2) s by simp
  have r3: "map fst (disk (handle_files env k (f # xs) st))
      = map fst (disk st) @ map ?lit (f # xs)"
    using ih(3) d keys by simp
  have r4: "\<forall>g \<in> set (f # xs). map_of (disk (handle_files env k (f # xs) st)) (?lit g)
      = map_of (disk st) g"
  proof
    fix g assume "g \<in> set (f # xs)"
    then consider "g = f" | "g \<in> set xs" by auto
    then show "map_of (disk (handle_files env k (f # xs) st)) (?lit g) = map_of (disk st) g"
    proof cases
      case 1
      have "map_of (disk ?st) (?lit f) = Some (Regular True c)"
        by (simp add: d update_conv')
      then have "map_of (disk (handle_files env (Suc k) xs ?st)) (?lit f) = Some (Regular True c)"
        by (rule handle_files_keeps)
      with 1 c show ?thesis by simp
    next
      case 2
      with Cons.prems(4) have "?lit f \<noteq> g" by simp
      then have "map_of ?d g = map_of (disk st) g" by (intro other) simp
      with ih(4) 2 d show ?thesis by simp
    qed
  qed
  from r1 r2 r3 r4 show ?case by blast
qed

text \<open>
  The second run: every file is readable and its literal destination holds the same
  content. Then each file is skipped as a duplicate, and nothing is written.
\<close>

lemma handle_files_skips:
  assumes "\<forall>f \<in> set xs. \<exists>c. map_of (disk st) f = Some (Regular True c) \<and>
              map_of (disk st) (literal_target (target_dir st) f) = Some (Regular True c)"
    and "\<forall>c. hexdigest env c \<noteq> []"
  shows "processed_files (handle_files env k xs st) = processed_files st \<and>
         skipped_files (handle_files env k xs st) = skipped_files st @ xs \<and>
         disk (handle_files env k xs st) = disk st \<and>
         total_size (handle_files env k xs st) = total_size st"
  using assms
proof (induction xs arbitrary: k st)
  case Nil
  show ?case by simp
next
  case (Cons f xs)
  from Cons.prems(1) obtain c where c: "map_of (disk st) f = Some (Regular True c)"
    "map_of (disk st) (literal_target (target_dir st) f) = Some (Regular True c)" by auto
  from Cons.prems(2) have h: "hexdigest env c \<noteq> []" by simp
  let ?st = "process_file env (Suc k) f st"
  have step: "?st = (notify (Suc k) f st)\<lparr>skipped_files := skipped_files st @ [f]\<rparr>"
    using c h by (rule process_file_skips)
  have d: "disk ?st = disk st" "target_dir ?st = target_dir st"
    "processed_files ?st = processed_files st" "skipped_files ?st = skipped_files st @ [f]"
    "total_size ?st = total_size st"
    by (simp_all add: step)
  have a1: "\<forall>g \<in> set xs. \<exists>c. map_of (disk ?st) g = Some (Regular True c) \<and>
              map_of (disk ?st) (literal_target (target_dir ?st) g) = Some (Regular True c)"
    using Cons.prems(1) by (simp add: d)
  from Cons.IH [OF a1 Cons.prems(2), of "Suc k"] d show ?case by simp
qed

lemma process_loop_unstopped:
  assumes "\<not> stop_requested st" and "\<forall>n. \<not> stop_called env n"
  shows "process_loop env k xs st = handle_files env k xs st"
proof -
  have "process_loop env k (xs @ []) st = process_loop env (k + length xs) [] (handle_files env k xs st)"
    using assms by (intro process_loop_before_stop) simp_all
  with assms(2) show ?thesis by (simp add: poll_def)
qed

lemma show_statistics_fields:
  "disk (snd (show_statistics st)) = disk st"
  "processed_files (snd (show_statistics st)) = processed_files st"
  "skipped_files (snd (show_statistics st)) = skipped_files st"
  by (simp_all add: show_statistics_def Let_def split: sum.splits)

lemma show_statistics_returns:
  assumes "total_size st < 2 ^ 53"
  shows "fst (show_statistics st) = Returned"
proof (cases "total_size st = 0")
  case True
  then show ?thesis by (simp add: show_statistics_def format_size_def)
next
  case False
  from assms have "as_double (total_size st) = Inr (of_nat (total_size st))"
    by (rule as_double_exact)
  with False format_size_double [of "total_size st" "of_nat (total_size st)"]
  obtain t where "format_size (total_size st) = Inr t" by auto
  then show ?thesis by (simp add: show_statistics_def Let_def)
qed

lemma below_source:
  "f \<in> set (source_files fs source) \<Longrightarrow> length source < length f \<and> take (length source) f = source"
  by (auto simp: source_files_def rglob_def)

lemma prefix_is_not_literal_target:
  assumes "take (length q) (joinpath target c) = q"
  shows "q \<noteq> literal_target target f"
proof
  assume "q = literal_target target f"
  then have "length q = length target + 2" by (simp add: literal_target_def joinpath_def)
  moreover have "length (take (length q) (joinpath target c)) \<le> length target + 1"
    by (simp add: joinpath_def)
  then have "length q \<le> length target + 1" by (simp only: assms)
  ultimately show False by simp
qed

text \<open>
  A run that nothing stops, with a callback and at least one file: what it returns is
  what \<^verbatim>\<open>show_statistics\<close> returns after the loop body has handled every file, starting
  from the disk with the category directories.
\<close>

lemma organize_files_unstopped:
  assumes "create_target_directories st = (None, st1)"
    and "\<not> stop_requested st" and "\<forall>n. \<not> stop_called env n" and "progress_callback st"
    and "source_files (disk st1) (source_dir st) = files" and "files \<noteq> []"
  shows "\<exists>st3. disk st3 = disk st1 \<and> target_dir st3 = target_dir st \<and>
           processed_files st3 = processed_files st \<and> skipped_files st3 = skipped_files st \<and>
           total_size st3 = 0 \<and>
           organize_files env st =
             show_statistics (call_progress (length files) (length files) Finished
               (handle_files env 0 files st3))"
proof -
  from assms(1) obtain fs1 where st1: "st1 = st\<lparr>disk := fs1\<rparr>"
    by (auto simp: create_target_directories_def split: prod.splits)
  from scan_files_result [of st1] obtain scan where
    "scan_files st1 = (st1\<lparr>calls := calls st1 @ scan\<rparr>, source_files (disk st1) (source_dir st1))"
    by blast
  with assms(5) have sc: "scan_files st1 = (st1\<lparr>calls := calls st1 @ scan\<rparr>, files)"
    by (simp add: st1)
  let ?st3 = "st1\<lparr>calls := calls st1 @ scan, total_files := length files,
      category_stats := (\<lambda>c. 0), total_size := 0\<rparr>"
  have f: "\<not> stop_requested ?st3" "progress_callback ?st3" "total_files ?st3 = length files"
    using assms(2,4) by (simp_all add: st1)
  have loop: "process_loop env 0 files ?st3 = handle_files env 0 files ?st3"
    using f(1) assms(3) by (rule process_loop_unstopped)
  have "organize_files env st =
      show_statistics (call_progress (length files) (length files) Finished
        (handle_files env 0 files ?st3))"
    using assms(1,6) sc loop f by (simp add: organize_files_def Let_def)
  moreover have "disk ?st3 = disk st1" "target_dir ?st3 = target_dir st"
    "processed_files ?st3 = processed_files st" "skipped_files ?st3 = skipped_files st"
    "total_size ?st3 = 0"
    by (simp_all add: st1)
  ultimately show ?thesis by blast
qed

text \<open>The fields that one iteration of the loop changes, from those it found.\<close>

lemma process_file_disk:
  "disk (process_file env i f st) =
     (if is_duplicate_file (hexdigest env) (disk st) f (literal_target (target_dir st) f)
      then disk st
      else case map_of (disk st) f of
             Some (Regular True c) \<Rightarrow>
               AList.update
                 (generate_unique_filename (disk st)
                    (joinpath (target_dir st) (category_name (get_file_category f))) (name f))
                 (Regular True c) (disk st)
           | _ \<Rightarrow> disk st)"
  by (simp add: process_file_cases Let_def split: option.splits node.splits bool.splits)

lemma process_file_processed:
  "processed_files (process_file env i f st) =
     (if is_duplicate_file (hexdigest env) (disk st) f (literal_target (target_dir st) f)
      then processed_files st
      else case map_of (disk st) f of
             Some (Regular True c) \<Rightarrow>
               if stat_raises env f then processed_files st
               else processed_files st @
                 [generate_unique_filename (disk st)
                    (joinpath (target_dir st) (category_name (get_file_category f))) (name f)]
           | _ \<Rightarrow> processed_files st)"
  by (simp add: process_file_cases Let_def split: option.splits node.splits bool.splits)

lemma process_file_skipped:
  "skipped_files (process_file env i f st) =
     (if is_duplicate_file (hexdigest env) (disk st) f (literal_target (target_dir st) f)
      then skipped_files st @ [f]
      else case map_of (disk st) f of
             Some (Regular True c) \<Rightarrow>
               if stat_raises env f then skipped_files st @ [f] else skipped_files st
           | _ \<Rightarrow> skipped_files st @ [f])"
  by (simp add: process_file_cases Let_def split: option.splits node.splits bool.splits)

lemma process_file_total_size:
  "total_size (process_file env i f st) =
     (if is_duplicate_file (hexdigest env) (disk st) f (literal_target (target_dir st) f)
      then total_size st
      else case map_of (disk st) f of
             Some (Regular True c) \<Rightarrow>
               if stat_raises env f then total_size st else total_size st + length c
           | _ \<Rightarrow> total_size st)"
  by (simp add: process_file_cases Let_def split: option.splits node.splits bool.splits)

lemmas step_eval = is_duplicate_file_def calculate_file_hash_def literal_target_def

text \<open>
  Claim C1, amended. Take two runs with the same source and target, each by a newly
  constructed engine (as the callers do), the second on the disk the first one left,
  with nothing stopping them: no stop request, hashing, copying and \<^verbatim>\<open>stat\<close> succeed
  on every source file, and the first run returns. Let neither tree
  lie inside the other, let the source files have pairwise distinct names, and let no
  file be at a literal destination before the first run. Then the first run copies every
  source file to its literal destination, and the second run processes no file: it
  skips every source file as a duplicate, so its skipped count is the processed count of
  the first run, and it leaves the disk as it found it.
\<close>

theorem organize_files_twice:
  assumes "organize_files env (init source target cb fs) = (Returned, s1)"
    and "\<forall>n. \<not> stop_called env n"
    and "\<forall>p. \<not> stat_raises env p"
    and "\<forall>c. hexdigest env c \<noteq> []"
    and "take (length source) target \<noteq> source"
    and "take (length target) source \<noteq> target"
    and "\<forall>f \<in> set (source_files fs source). \<exists>c. map_of fs f = Some (Regular True c)"
    and "distinct (map name (source_files fs source))"
    and "\<forall>f \<in> set (source_files fs source). \<not> path_exists fs (literal_target target f)"
  shows "processed_files s1 = map (literal_target target) (source_files fs source) \<and>
         (\<exists>s2. organize_files env (init source target cb (disk s1)) = (Returned, s2) \<and>
            processed_files s2 = [] \<and>
            skipped_files s2 = source_files fs source \<and>
            length (skipped_files s2) = length (processed_files s1) \<and>
            disk s2 = disk s1)"
proof -
  let ?F = "source_files fs source"
  let ?lit = "literal_target target"
  let ?st0 = "init source target cb fs"
  note run1 = assms(1) and nostop = assms(2) and nostat = assms(3) and hash = assms(4)
    and apart = assms(5,6) and readable = assms(7) and names = assms(8) and free = assms(9)
  obtain e st1 where ctd: "create_target_directories ?st0 = (e, st1)"
    by (cases "create_target_directories ?st0")
  have e: "e = None"
  proof (cases e)
    case None
    then show ?thesis .
  next
    case (Some err)
    with ctd run1 show ?thesis by (simp add: organize_files_def)
  qed
  from ctd e obtain fs1 where cd: "create_dirs target (map fst file_categories) fs = (None, fs1)"
    and st1: "st1 = ?st0\<lparr>disk := fs1\<rparr>"
    by (auto simp: create_target_directories_def init_def split: prod.splits)
  from create_dirs_shape [OF cd] obtain extra where ex: "fs1 = fs @ extra"
    "\<forall>q \<in> fst ` set extra. \<exists>c. take (length q) (joinpath target (category_name c)) = q"
    by blast
  have keep1: "\<And>q n. map_of fs q = Some n \<Longrightarrow> map_of fs1 q = Some n"
    using cd by (rule create_dirs_keeps)
  have dirs1: "\<forall>c \<in> set (map fst file_categories).
      map_of fs1 (joinpath target (category_name c)) = Some Directory"
    using cd by (rule create_dirs_made)
  have "\<forall>q \<in> fst ` set extra. \<not> (length source < length q \<and> take (length source) q = source)"
  proof
    fix q assume "q \<in> fst ` set extra"
    with ex(2) obtain c where "take (length q) (joinpath target (category_name c)) = q" by blast
    with apart(1) show "\<not> (length source < length q \<and> take (length source) q = source)"
      by (rule prefix_of_target_not_below_source)
  qed
  then have rg1: "rglob fs1 source = rglob fs source"
    unfolding ex(1) by (rule rglob_append)
  have F1: "source_files fs1 source = ?F"
    using rg1 by (rule source_files_same) (use keep1 in blast)
  have free1: "\<forall>f \<in> set ?F. \<not> path_exists fs1 (?lit f)"
  proof
    fix f assume f: "f \<in> set ?F"
    have "\<not> path_exists extra (?lit f)"
    proof
      assume "path_exists extra (?lit f)"
      then have "?lit f \<in> fst ` set extra" by (simp add: path_exists_iff)
      with ex(2) obtain c where "take (length (?lit f)) (joinpath target (category_name c)) = ?lit f"
        by blast
      then have "?lit f \<noteq> ?lit f" by (rule prefix_is_not_literal_target)
      then show False by simp
    qed
    with free f show "\<not> path_exists fs1 (?lit f)" by (simp add: ex(1) path_exists_append)
  qed
  have read1: "\<forall>f \<in> set ?F. \<exists>c. map_of fs1 f = Some (Regular True c)"
    using readable keep1 by blast
  from scan_files_result [of st1] obtain scan where
    "scan_files st1 = (st1\<lparr>calls := calls st1 @ scan\<rparr>, source_files (disk st1) (source_dir st1))"
    by blast
  then have sc: "scan_files st1 = (st1\<lparr>calls := calls st1 @ scan\<rparr>, ?F)"
    using F1 by (simp add: st1 init_def)
  let ?st2 = "st1\<lparr>calls := calls st1 @ scan\<rparr>"
  show ?thesis
  proof (cases "?F = []")
    case True
    have "s1 = ?st2" using run1 ctd e sc True by (simp add: organize_files_def)
    then have d1: "disk s1 = fs1" "processed_files s1 = []" by (simp_all add: st1 init_def)
    let ?r0 = "init source target cb fs1"
    have c2: "create_target_directories ?r0 = (None, ?r0)"
      using create_dirs_again [OF dirs1] by (simp add: create_target_directories_def init_def)
    from scan_files_result [of ?r0] obtain scan2 where
      "scan_files ?r0 = (?r0\<lparr>calls := calls ?r0 @ scan2\<rparr>, source_files (disk ?r0) (source_dir ?r0))"
      by blast
    then have sc2: "scan_files ?r0 = (?r0\<lparr>calls := calls ?r0 @ scan2\<rparr>, [])"
      using F1 True by (simp add: init_def)
    have run2: "organize_files env ?r0 = (Returned, ?r0\<lparr>calls := calls ?r0 @ scan2\<rparr>)"
      using c2 sc2 by (simp add: organize_files_def)
    have "organize_files env (init source target cb (disk s1))
          = (Returned, ?r0\<lparr>calls := calls ?r0 @ scan2\<rparr>) \<and>
        processed_files (?r0\<lparr>calls := calls ?r0 @ scan2\<rparr>) = [] \<and>
        skipped_files (?r0\<lparr>calls := calls ?r0 @ scan2\<rparr>) = ?F \<and>
        length (skipped_files (?r0\<lparr>calls := calls ?r0 @ scan2\<rparr>)) = length (processed_files s1) \<and>
        disk (?r0\<lparr>calls := calls ?r0 @ scan2\<rparr>) = disk s1"
      using run2 d1 True by (simp add: init_def)
    then have "\<exists>s2. organize_files env (init source target cb (disk s1)) = (Returned, s2) \<and>
            processed_files s2 = [] \<and> skipped_files s2 = ?F \<and>
            length (skipped_files s2) = length (processed_files s1) \<and> disk s2 = disk s1"
      by (rule exI)
    with d1(2) True show ?thesis by simp
  next
    case False
    let ?st3 = "?st2\<lparr>total_files := length ?F, category_stats := (\<lambda>c. 0), total_size := 0\<rparr>"
    have f3: "\<not> stop_requested ?st3" "disk ?st3 = fs1" "target_dir ?st3 = target"
      "processed_files ?st3 = []" "skipped_files ?st3 = []" "progress_callback ?st3 = cb"
      "total_files ?st3 = length ?F"
      by (simp_all add: st1 init_def)
    let ?st4 = "handle_files env 0 ?F ?st3"
    have loop1: "process_loop env 0 ?F ?st3 = ?st4"
      using f3(1) nostop by (rule process_loop_unstopped)
    have lit_file: "\<forall>f \<in> set ?F. \<forall>g \<in> set ?F. ?lit f \<noteq> g"
    proof (intro ballI notI)
      fix f g assume "g \<in> set ?F" and "?lit f = g"
      then have "length source < length (?lit f) \<and> take (length source) (?lit f) = source"
        by (auto dest: below_source)
      with literal_target_not_below_source [OF apart, of f] show False by simp
    qed
    have p1: "\<forall>f \<in> set ?F. \<exists>c. map_of (disk ?st3) f = Some (Regular True c)"
      using read1 by (simp only: f3(2))
    have p3: "\<forall>f \<in> set ?F. \<not> path_exists (disk ?st3) (literal_target (target_dir ?st3) f)"
      using free1 by (simp only: f3(2,3))
    have p4: "\<forall>f \<in> set ?F. \<forall>g \<in> set ?F. literal_target (target_dir ?st3) f \<noteq> g"
      using lit_file by (simp only: f3(3))
    note cp0 = handle_files_copies [OF p1 names p3 p4 nostat, of 0, unfolded f3]
    from cp0 have cp: "processed_files ?st4 = map ?lit ?F"
      "map fst (disk ?st4) = map fst fs1 @ map ?lit ?F"
      "\<forall>f \<in> set ?F. map_of (disk ?st4) (?lit f) = map_of fs1 f"
      by simp_all
    have run1': "organize_files env ?st0 =
        (if cb then show_statistics (call_progress (length ?F) (length ?F) Finished ?st4)
         else (Raised TypeError, ?st4))"
      using ctd e sc False loop1 f3(1,6,7) by (simp add: organize_files_def Let_def)
    with run1 have cb: "cb" by (auto split: if_splits)
    let ?st5 = "call_progress (length ?F) (length ?F) Finished ?st4"
    from run1 run1' cb have "show_statistics ?st5 = (Returned, s1)" by simp
    then have "s1 = snd (show_statistics ?st5)" by simp
    then have d1: "disk s1 = disk ?st4" "processed_files s1 = processed_files ?st4"
      by (simp_all add: show_statistics_fields call_progress_def)
    let ?D = "disk ?st4"
    have keep4: "\<And>q n. map_of fs1 q = Some n \<Longrightarrow> map_of ?D q = Some n"
    proof -
      fix q n assume "map_of fs1 q = Some n"
      then have "map_of (disk ?st3) q = Some n" by (simp only: f3(2))
      then show "map_of ?D q = Some n" by (rule handle_files_keeps)
    qed
    let ?r0 = "init source target cb ?D"
    have dirs4: "\<forall>c \<in> set (map fst file_categories).
        map_of ?D (joinpath target (category_name c)) = Some Directory"
      using dirs1 keep4 by blast
    have c2: "create_target_directories ?r0 = (None, ?r0)"
      using create_dirs_again [OF dirs4] by (simp add: create_target_directories_def init_def)
    have "filter (\<lambda>p. length source < length p \<and> take (length source) p = source) (map ?lit ?F) = []"
      using literal_target_not_below_source [OF apart] by (simp add: filter_empty_conv)
    then have "rglob ?D source = rglob fs1 source"
      by (simp add: rglob_def cp(2))
    with rg1 have rg4: "rglob ?D source = rglob fs source" by simp
    have F4: "source_files ?D source = ?F"
      using rg4 by (rule source_files_same) (use keep1 keep4 in blast)
    from scan_files_result [of ?r0] obtain scan2 where
      "scan_files ?r0 = (?r0\<lparr>calls := calls ?r0 @ scan2\<rparr>, source_files (disk ?r0) (source_dir ?r0))"
      by blast
    then have sc2: "scan_files ?r0 = (?r0\<lparr>calls := calls ?r0 @ scan2\<rparr>, ?F)"
      using F4 by (simp add: init_def)
    let ?r3 = "?r0\<lparr>calls := calls ?r0 @ scan2, total_files := length ?F,
        category_stats := (\<lambda>c. 0), total_size := 0\<rparr>"
    have g3: "\<not> stop_requested ?r3" "disk ?r3 = ?D" "target_dir ?r3 = target"
      "processed_files ?r3 = []" "skipped_files ?r3 = []" "progress_callback ?r3"
      "total_files ?r3 = length ?F" "total_size ?r3 = 0"
      using cb by (simp_all add: init_def)
    let ?r4 = "handle_files env 0 ?F ?r3"
    have loop2: "process_loop env 0 ?F ?r3 = ?r4"
      using g3(1) nostop by (rule process_loop_unstopped)
    have dup: "\<forall>f \<in> set ?F. \<exists>c. map_of (disk ?r3) f = Some (Regular True c) \<and>
        map_of (disk ?r3) (literal_target (target_dir ?r3) f) = Some (Regular True c)"
    proof
      fix f assume f: "f \<in> set ?F"
      with read1 obtain c where c: "map_of fs1 f = Some (Regular True c)" by blast
      then have "map_of ?D f = Some (Regular True c)" by (rule keep4)
      moreover have "map_of ?D (?lit f) = Some (Regular True c)" using cp(3) f c by simp
      ultimately show "\<exists>c. map_of (disk ?r3) f = Some (Regular True c) \<and>
        map_of (disk ?r3) (literal_target (target_dir ?r3) f) = Some (Regular True c)"
        by (simp only: g3(2,3)) simp
    qed
    note sk0 = handle_files_skips [OF dup hash, of 0, unfolded g3]
    from sk0 have sk: "processed_files ?r4 = []" "skipped_files ?r4 = ?F" "disk ?r4 = ?D"
      "total_size ?r4 = 0"
      by simp_all
    let ?r5 = "call_progress (length ?F) (length ?F) Finished ?r4"
    have run2: "organize_files env ?r0 = show_statistics ?r5"
      using c2 sc2 False loop2 g3(1,6,7) by (simp add: organize_files_def Let_def)
    have "total_size ?r5 < 2 ^ 53" using sk(4) by (simp add: call_progress_def)
    then have "fst (show_statistics ?r5) = Returned" by (rule show_statistics_returns)
    with run2 have r2: "organize_files env ?r0 = (Returned, snd (show_statistics ?r5))"
      by (metis prod.collapse)
    have "organize_files env (init source target cb (disk s1))
          = (Returned, snd (show_statistics ?r5)) \<and>
        processed_files (snd (show_statistics ?r5)) = [] \<and>
        skipped_files (snd (show_statistics ?r5)) = ?F \<and>
        length (skipped_files (snd (show_statistics ?r5))) = length (processed_files s1) \<and>
        disk (snd (show_statistics ?r5)) = disk s1"
      using r2 sk d1 cp(1) by (simp add: show_statistics_fields call_progress_def)
    then have "\<exists>s2. organize_files env (init source target cb (disk s1)) = (Returned, s2) \<and>
            processed_files s2 = [] \<and> skipped_files s2 = ?F \<and>
            length (skipped_files s2) = length (processed_files s1) \<and> disk s2 = disk s1"
      by (rule exI)
    with d1(2) cp(1) show ?thesis by simp
  qed
qed

theorem organize_files_twice_witness:
  "processed_files (snd (organize_files \<lparr>hexdigest = (\<lambda>c. CHR ''h'' # c), stat_raises = (\<lambda>p. False), stop_called = (\<lambda>n. False)\<rparr>
        (init [''s''] [''t''] True [([''s''], Directory), ([''s'', ''a.txt''], Regular True ''X'')]))) = [[''t'', category_name Documents, ''a.txt'']] \<and>
   (\<exists>s2. organize_files \<lparr>hexdigest = (\<lambda>c. CHR ''h'' # c), stat_raises = (\<lambda>p. False), stop_called = (\<lambda>n. False)\<rparr>
      (init [''s''] [''t''] True (disk (snd (organize_files \<lparr>hexdigest = (\<lambda>c. CHR ''h'' # c), stat_raises = (\<lambda>p. False), stop_called = (\<lambda>n. False)\<rparr>
        (init [''s''] [''t''] True [([''s''], Directory), ([''s'', ''a.txt''], Regular True ''X'')]))))) = (Returned, s2) \<and>
      processed_files s2 = [] \<and> skipped_files s2 = [[''s'', ''a.txt'']] \<and>
      length (skipped_files s2) = length (processed_files (snd (organize_files \<lparr>hexdigest = (\<lambda>c. CHR ''h'' # c), stat_raises = (\<lambda>p. False), stop_called = (\<lambda>n. False)\<rparr>
        (init [''s''] [''t''] True [([''s''], Directory), ([''s'', ''a.txt''], Regular True ''X'')])))) \<and>
      disk s2 = disk (snd (organize_files \<lparr>hexdigest = (\<lambda>c. CHR ''h'' # c), stat_raises = (\<lambda>p. False), stop_called = (\<lambda>n. False)\<rparr>
        (init [''s''] [''t''] True [([''s''], Directory), ([''s'', ''a.txt''], Regular True ''X'')]))))"
proof -
  let ?E = "\<lparr>hexdigest = (\<lambda>c. CHR ''h'' # c), stat_raises = (\<lambda>p. False), stop_called = (\<lambda>n. False)\<rparr>"
  let ?f = "[''s'', ''a.txt'']"
  let ?fs = "[([''s''], Directory), ([''s'', ''a.txt''], Regular True ''X'')]"
  let ?made = "[([''s''], Directory), ([''s'', ''a.txt''], Regular True ''X''),
      ([''t''], Directory), ([''t'', category_name Pictures], Directory), ([''t'', category_name Videos], Directory), ([''t'', category_name Audio], Directory), ([''t'', category_name Documents], Directory), ([''t'', category_name Archives], Directory), ([''t'', category_name Programs], Directory), ([''t'', category_name Other], Directory)]"
  let ?st = "init [''s''] [''t''] True ?fs"
  let ?n = "length [?f]"
  have flags: "\<not> stop_requested ?st" "\<forall>n. \<not> stop_called ?E n" "progress_callback ?st"
    "[?f] \<noteq> []"
    by (simp_all add: init_def)
  have dirs: "create_target_directories ?st = (None, ?st\<lparr>disk := ?made\<rparr>)"
    by (simp add: create_target_directories_def init_def fs_eval)
  have scanned: "source_files (disk (?st\<lparr>disk := ?made\<rparr>)) (source_dir ?st) = [?f]"
    by (simp add: source_files_def init_def fs_eval)
  from organize_files_unstopped [OF dirs flags(1,2,3) scanned flags(4)] obtain st3 where
    raw: "disk st3 = disk (?st\<lparr>disk := ?made\<rparr>)" "target_dir st3 = target_dir ?st"
      "total_size st3 = 0"
    and r1: "organize_files ?E ?st =
      show_statistics (call_progress ?n ?n Finished (handle_files ?E 0 [?f] st3))"
    by blast
  from raw have st3: "disk st3 = ?made" "target_dir st3 = [''t'']" "total_size st3 = 0"
    by (simp_all add: init_def)
  let ?a = "process_file ?E (Suc 0) ?f st3"
  have size: "total_size ?a = 1"
    by (subst process_file_total_size) (simp add: st3 step_eval fs_eval name_eval)
  have h1: "handle_files ?E 0 [?f] st3 = ?a" by simp
  have "total_size (call_progress ?n ?n Finished ?a) < 2 ^ 53"
    using size by (simp add: call_progress_def)
  then have "fst (show_statistics (call_progress ?n ?n Finished ?a)) = Returned"
    by (rule show_statistics_returns)
  then have "fst (organize_files ?E ?st) = Returned" by (simp only: r1 h1)
  then have run1: "organize_files ?E ?st = (Returned, snd (organize_files ?E ?st))"
    by (metis prod.collapse)
  have files: "source_files ?fs [''s''] = [?f]"
    by (simp add: source_files_def fs_eval)
  have nostat: "\<forall>p. \<not> stat_raises ?E p" and hash: "\<forall>c. hexdigest ?E c \<noteq> []"
    by simp_all
  have apart: "take (length [''s'']) [''t''] \<noteq> [''s'']" "take (length [''t'']) [''s''] \<noteq> [''t'']"
    by simp_all
  have readable: "\<forall>f \<in> set (source_files ?fs [''s'']). \<exists>c. map_of ?fs f = Some (Regular True c)"
    by (simp add: files)
  have names: "distinct (map name (source_files ?fs [''s'']))"
    by (simp add: files)
  have free: "\<forall>f \<in> set (source_files ?fs [''s'']). \<not> path_exists ?fs (literal_target [''t''] f)"
    by (simp add: files literal_target_def fs_eval name_eval)
  have lit: "map (literal_target [''t'']) [?f] = [[''t'', category_name Documents, ''a.txt'']]"
    by (simp add: literal_target_def joinpath_def name_def name_eval file_categories_def)
  from organize_files_twice [OF run1 flags(2) nostat hash apart readable names free,
      unfolded files lit]
  show ?thesis by blast
qed

text \<open>
  The claim as written fails when two source files have the same name. The source holds
  \<open>a.txt\<close> and \<open>d/a.txt\<close> with different contents. The first run copies them to
  \<open>a.txt\<close> and \<open>a_1.txt\<close>. The second run, on the disk that the first one left, skips
  the first file, but it compares the
  second one with \<open>a.txt\<close>, finds another content and copies it again, to \<open>a_2.txt\<close>: one
  file is newly processed, and one file is skipped where the first run processed two.
\<close>

theorem organize_files_twice_counterexample:
  "fst (organize_files \<lparr>hexdigest = (\<lambda>c. CHR ''h'' # c), stat_raises = (\<lambda>p. False), stop_called = (\<lambda>n. False)\<rparr>
      (init [''s''] [''t''] True
        [([''s''], Directory), ([''s'', ''a.txt''], Regular True ''X''), ([''s'', ''d''], Directory), ([''s'', ''d'', ''a.txt''], Regular True ''Y'')])) = Returned \<and>
   disk (snd (organize_files \<lparr>hexdigest = (\<lambda>c. CHR ''h'' # c), stat_raises = (\<lambda>p. False), stop_called = (\<lambda>n. False)\<rparr>
      (init [''s''] [''t''] True
        [([''s''], Directory), ([''s'', ''a.txt''], Regular True ''X''), ([''s'', ''d''], Directory), ([''s'', ''d'', ''a.txt''], Regular True ''Y'')]))) =
     [([''s''], Directory), ([''s'', ''a.txt''], Regular True ''X''), ([''s'', ''d''], Directory), ([''s'', ''d'', ''a.txt''], Regular True ''Y''),
      ([''t''], Directory), ([''t'', category_name Pictures], Directory), ([''t'', category_name Videos], Directory), ([''t'', category_name Audio], Directory), ([''t'', category_name Documents], Directory), ([''t'', category_name Archives], Directory), ([''t'', category_name Programs], Directory), ([''t'', category_name Other], Directory),
      ([''t'', category_name Documents, ''a.txt''], Regular True ''X''),
      ([''t'', category_name Documents, ''a_1.txt''], Regular True ''Y'')] \<and>
   processed_files (snd (organize_files \<lparr>hexdigest = (\<lambda>c. CHR ''h'' # c), stat_raises = (\<lambda>p. False), stop_called = (\<lambda>n. False)\<rparr>
      (init [''s''] [''t''] True
        [([''s''], Directory), ([''s'', ''a.txt''], Regular True ''X''), ([''s'', ''d''], Directory), ([''s'', ''d'', ''a.txt''], Regular True ''Y'')]))) =
     [[''t'', category_name Documents, ''a.txt''], [''t'', category_name Documents, ''a_1.txt'']] \<and>
   fst (organize_files \<lparr>hexdigest = (\<lambda>c. CHR ''h'' # c), stat_raises = (\<lambda>p. False), stop_called = (\<lambda>n. False)\<rparr>
      (init [''s''] [''t''] True
     [([''s''], Directory), ([''s'', ''a.txt''], Regular True ''X''), ([''s'', ''d''], Directory), ([''s'', ''d'', ''a.txt''], Regular True ''Y''),
      ([''t''], Directory), ([''t'', category_name Pictures], Directory), ([''t'', category_name Videos], Directory), ([''t'', category_name Audio], Directory), ([''t'', category_name Documents], Directory), ([''t'', category_name Archives], Directory), ([''t'', category_name Programs], Directory), ([''t'', category_name Other], Directory),
      ([''t'', category_name Documents, ''a.txt''], Regular True ''X''),
      ([''t'', category_name Documents, ''a_1.txt''], Regular True ''Y'')])) = Returned \<and>
   processed_files (snd (organize_files \<lparr>hexdigest = (\<lambda>c. CHR ''h'' # c), stat_raises = (\<lambda>p. False), stop_called = (\<lambda>n. False)\<rparr>
      (init [''s''] [''t''] True
     [([''s''], Directory), ([''s'', ''a.txt''], Regular True ''X''), ([''s'', ''d''], Directory), ([''s'', ''d'', ''a.txt''], Regular True ''Y''),
      ([''t''], Directory), ([''t'', category_name Pictures], Directory), ([''t'', category_name Videos], Directory), ([''t'', category_name Audio], Directory), ([''t'', category_name Documents], Directory), ([''t'', category_name Archives], Directory), ([''t'', category_name Programs], Directory), ([''t'', category_name Other], Directory),
      ([''t'', category_name Documents, ''a.txt''], Regular True ''X''),
      ([''t'', category_name Documents, ''a_1.txt''], Regular True ''Y'')]))) =
     [[''t'', category_name Documents, ''a_2.txt'']] \<and>
   skipped_files (snd (organize_files \<lparr>hexdigest = (\<lambda>c. CHR ''h'' # c), stat_raises = (\<lambda>p. False), stop_called = (\<lambda>n. False)\<rparr>
      (init [''s''] [''t''] True
     [([''s''], Directory), ([''s'', ''a.txt''], Regular True ''X''), ([''s'', ''d''], Directory), ([''s'', ''d'', ''a.txt''], Regular True ''Y''),
      ([''t''], Directory), ([''t'', category_name Pictures], Directory), ([''t'', category_name Videos], Directory), ([''t'', category_name Audio], Directory), ([''t'', category_name Documents], Directory), ([''t'', category_name Archives], Directory), ([''t'', category_name Programs], Directory), ([''t'', category_name Other], Directory),
      ([''t'', category_name Documents, ''a.txt''], Regular True ''X''),
      ([''t'', category_name Documents, ''a_1.txt''], Regular True ''Y'')]))) = [[''s'', ''a.txt'']]"
proof -
  let ?E = "\<lparr>hexdigest = (\<lambda>c. CHR ''h'' # c), stat_raises = (\<lambda>p. False), stop_called = (\<lambda>n. False)\<rparr>"
  let ?f = "[''s'', ''a.txt'']" and ?g = "[''s'', ''d'', ''a.txt'']"
  let ?fs = "[([''s''], Directory), ([''s'', ''a.txt''], Regular True ''X''), ([''s'', ''d''], Directory), ([''s'', ''d'', ''a.txt''], Regular True ''Y'')]"
  let ?made = "[([''s''], Directory), ([''s'', ''a.txt''], Regular True ''X''), ([''s'', ''d''], Directory), ([''s'', ''d'', ''a.txt''], Regular True ''Y''),
      ([''t''], Directory), ([''t'', category_name Pictures], Directory), ([''t'', category_name Videos], Directory), ([''t'', category_name Audio], Directory), ([''t'', category_name Documents], Directory), ([''t'', category_name Archives], Directory), ([''t'', category_name Programs], Directory), ([''t'', category_name Other], Directory)]"
  let ?one = "[([''s''], Directory), ([''s'', ''a.txt''], Regular True ''X''), ([''s'', ''d''], Directory), ([''s'', ''d'', ''a.txt''], Regular True ''Y''),
      ([''t''], Directory), ([''t'', category_name Pictures], Directory), ([''t'', category_name Videos], Directory), ([''t'', category_name Audio], Directory), ([''t'', category_name Documents], Directory), ([''t'', category_name Archives], Directory), ([''t'', category_name Programs], Directory), ([''t'', category_name Other], Directory),
      ([''t'', category_name Documents, ''a.txt''], Regular True ''X'')]"
  let ?two = "[([''s''], Directory), ([''s'', ''a.txt''], Regular True ''X''), ([''s'', ''d''], Directory), ([''s'', ''d'', ''a.txt''], Regular True ''Y''),
      ([''t''], Directory), ([''t'', category_name Pictures], Directory), ([''t'', category_name Videos], Directory), ([''t'', category_name Audio], Directory), ([''t'', category_name Documents], Directory), ([''t'', category_name Archives], Directory), ([''t'', category_name Programs], Directory), ([''t'', category_name Other], Directory),
      ([''t'', category_name Documents, ''a.txt''], Regular True ''X''),
      ([''t'', category_name Documents, ''a_1.txt''], Regular True ''Y'')]"
  let ?st = "init [''s''] [''t''] True ?fs"
  let ?n = "length [?f, ?g]"
  have flags: "\<not> stop_requested ?st" "\<forall>n. \<not> stop_called ?E n" "progress_callback ?st"
    "[?f, ?g] \<noteq> []"
    by (simp_all add: init_def)
  have dirs1: "create_target_directories ?st = (None, ?st\<lparr>disk := ?made\<rparr>)"
    by (simp add: create_target_directories_def init_def fs_eval)
  have s1: "source_files (disk (?st\<lparr>disk := ?made\<rparr>)) (source_dir ?st) = [?f, ?g]"
    by (simp add: source_files_def init_def fs_eval)
  from organize_files_unstopped [OF dirs1 flags(1,2,3) s1 flags(4)] obtain st3 where
    raw: "disk st3 = disk (?st\<lparr>disk := ?made\<rparr>)" "target_dir st3 = target_dir ?st"
      "processed_files st3 = processed_files ?st" "skipped_files st3 = skipped_files ?st"
      "total_size st3 = 0"
    and r1: "organize_files ?E ?st =
      show_statistics (call_progress ?n ?n Finished (handle_files ?E 0 [?f, ?g] st3))"
    by blast
  from raw have st3: "disk st3 = ?made" "target_dir st3 = [''t'']" "processed_files st3 = []"
      "skipped_files st3 = []" "total_size st3 = 0"
    by (simp_all add: init_def)
  let ?a = "process_file ?E (Suc 0) ?f st3"
  let ?b = "process_file ?E (Suc (Suc 0)) ?g ?a"
  have first1: "disk ?a = ?one"
    by (subst process_file_disk) (simp add: st3 step_eval fs_eval name_eval)
  have first2: "processed_files ?a = [[''t'', category_name Documents, ''a.txt'']]"
    by (subst process_file_processed) (simp add: st3 step_eval fs_eval name_eval)
  have first3: "skipped_files ?a = []"
    by (subst process_file_skipped) (simp add: st3 step_eval fs_eval name_eval)
  have first4: "total_size ?a = 1"
    by (subst process_file_total_size) (simp add: st3 step_eval fs_eval name_eval)
  have first5: "target_dir ?a = [''t'']"
    by (simp add: st3)
  note first = first1 first2 first3 first4 first5
  have second1: "disk ?b = ?two"
    by (subst process_file_disk) (simp add: first st3 step_eval fs_eval name_eval)
  have second2: "processed_files ?b = [[''t'', category_name Documents, ''a.txt''], [''t'', category_name Documents, ''a_1.txt'']]"
    by (subst process_file_processed) (simp add: first st3 step_eval fs_eval name_eval)
  have second3: "skipped_files ?b = []"
    by (subst process_file_skipped) (simp add: first st3 step_eval fs_eval name_eval)
  have second4: "total_size ?b = 2"
    by (subst process_file_total_size) (simp add: first st3 step_eval fs_eval name_eval)
  note second = second1 second2 second3 second4
  have h1: "handle_files ?E 0 [?f, ?g] st3 = ?b" by simp
  have "total_size (call_progress ?n ?n Finished ?b) < 2 ^ 53"
    using second by (simp add: call_progress_def)
  then have "fst (show_statistics (call_progress ?n ?n Finished ?b)) = Returned"
    by (rule show_statistics_returns)
  then have o1: "fst (organize_files ?E ?st) = Returned" by (simp only: r1 h1)
  have left1: "disk (snd (organize_files ?E ?st)) = ?two"
    using second by (simp only: r1 h1 show_statistics_fields) (simp add: call_progress_def)
  have p1: "processed_files (snd (organize_files ?E ?st)) =
      [[''t'', category_name Documents, ''a.txt''], [''t'', category_name Documents, ''a_1.txt'']]"
    using second by (simp only: r1 h1 show_statistics_fields) (simp add: call_progress_def)
  let ?again = "init [''s''] [''t''] True ?two"
  have flags2: "\<not> stop_requested ?again" "progress_callback ?again"
    by (simp_all add: init_def)
  have dirs2: "create_target_directories ?again = (None, ?again\<lparr>disk := ?two\<rparr>)"
    by (simp add: create_target_directories_def init_def fs_eval)
  have s2: "source_files (disk (?again\<lparr>disk := ?two\<rparr>)) (source_dir ?again) = [?f, ?g]"
    by (simp add: source_files_def init_def fs_eval)
  from organize_files_unstopped [OF dirs2 flags2(1) flags(2) flags2(2) s2 flags(4)] obtain st3' where
    raw': "disk st3' = disk (?again\<lparr>disk := ?two\<rparr>)" "target_dir st3' = target_dir ?again"
      "processed_files st3' = processed_files ?again" "skipped_files st3' = skipped_files ?again"
      "total_size st3' = 0"
    and r2: "organize_files ?E ?again =
      show_statistics (call_progress ?n ?n Finished (handle_files ?E 0 [?f, ?g] st3'))"
    by blast
  from raw' have st3': "disk st3' = ?two" "target_dir st3' = [''t'']" "processed_files st3' = []"
      "skipped_files st3' = []" "total_size st3' = 0"
    by (simp_all add: init_def)
  let ?c = "process_file ?E (Suc 0) ?f st3'"
  let ?d = "process_file ?E (Suc (Suc 0)) ?g ?c"
  have third1: "disk ?c = ?two"
    by (subst process_file_disk) (simp add: st3' step_eval fs_eval name_eval)
  have third2: "processed_files ?c = []"
    by (subst process_file_processed) (simp add: st3' step_eval fs_eval name_eval)
  have third3: "skipped_files ?c = [?f]"
    by (subst process_file_skipped) (simp add: st3' step_eval fs_eval name_eval)
  have third4: "total_size ?c = 0"
    by (subst process_file_total_size) (simp add: st3' step_eval fs_eval name_eval)
  have third5: "target_dir ?c = [''t'']"
    by (simp add: st3')
  note third = third1 third2 third3 third4 third5
  have fourth1: "processed_files ?d = [[''t'', category_name Documents, ''a_2.txt'']]"
    by (subst process_file_processed) (simp add: third st3' step_eval fs_eval name_eval)
  have fourth2: "skipped_files ?d = [?f]"
    by (subst process_file_skipped) (simp add: third st3' step_eval fs_eval name_eval)
  have fourth3: "total_size ?d = 1"
    by (subst process_file_total_size) (simp add: third st3' step_eval fs_eval name_eval)
  note fourth = fourth1 fourth2 fourth3
  have h2: "handle_files ?E 0 [?f, ?g] st3' = ?d" by simp
  have "total_size (call_progress ?n ?n Finished ?d) < 2 ^ 53"
    using fourth by (simp add: call_progress_def)
  then have "fst (show_statistics (call_progress ?n ?n Finished ?d)) = Returned"
    by (rule show_statistics_returns)
  then have o2: "fst (organize_files ?E ?again) = Returned" by (simp only: r2 h2)
  have p2: "processed_files (snd (organize_files ?E ?again)) = [[''t'', category_name Documents, ''a_2.txt'']]"
    using fourth by (simp only: r2 h2 show_statistics_fields) (simp add: call_progress_def)
  have k2: "skipped_files (snd (organize_files ?E ?again)) = [?f]"
    using fourth by (simp only: r2 h2 show_statistics_fields) (simp add: call_progress_def)
  from o1 left1 p1 o2 p2 k2 show ?thesis by blast
qed

end
